theory Spec2Isabelle
  imports Main
begin

section \<open>Python strings\<close>

text \<open>
  A Python \<^verbatim>\<open>str\<close> is a sequence of Unicode code points, so a character is modelled by
  its code point (a natural number) and a string by a list of code points.  String
  literals of the source are written \<open>str ''...''\<close>.
\<close>

type_synonym pychar = nat
type_synonym pystr = "pychar list"

abbreviation str :: "string \<Rightarrow> pystr" where
  "str cs \<equiv> map of_char cs"

text \<open>
  \<^verbatim>\<open>\s\<close> in a \<^verbatim>\<open>str\<close> pattern, \<^verbatim>\<open>str.isspace\<close> and the characters removed by
  \<^verbatim>\<open>str.strip()\<close>: the Unicode white space code points.
\<close>

definition is_space :: "pychar \<Rightarrow> bool" where
  "is_space c \<longleftrightarrow>
     (0x09 \<le> c \<and> c \<le> 0x0D) \<or> (0x1C \<le> c \<and> c \<le> 0x20) \<or> c = 0x85 \<or> c = 0xA0 \<or>
     c = 0x1680 \<or> (0x2000 \<le> c \<and> c \<le> 0x200A) \<or> c = 0x2028 \<or> c = 0x2029 \<or>
     c = 0x202F \<or> c = 0x205F \<or> c = 0x3000"

text \<open>The character class \<^verbatim>\<open>[A-Z]\<close> (matched without IGNORECASE).\<close>

definition is_AZ :: "pychar \<Rightarrow> bool" where
  "is_AZ c \<longleftrightarrow> 0x41 \<le> c \<and> c \<le> 0x5A"

text \<open>\<^verbatim>\<open>s.replace(old, new)\<close> for a one-character \<^verbatim>\<open>old\<close>.\<close>

definition replace_char :: "pychar \<Rightarrow> pystr \<Rightarrow> pystr \<Rightarrow> pystr" where
  "replace_char old new s = concat (map (\<lambda>c. if c = old then new else [c]) s)"

text \<open>\<^verbatim>\<open>s.strip()\<close>: white space removed at both ends.\<close>

definition strip :: "pystr \<Rightarrow> pystr" where
  "strip s = rev (dropWhile is_space (rev (dropWhile is_space s)))"

text \<open>
  Case mappings.  \<^verbatim>\<open>str.upper\<close>, \<^verbatim>\<open>str.lower\<close> and \<^verbatim>\<open>str.title\<close> use the full Unicode
  mappings, under which one code point may become several.  The program applies them
  only to text matched by its patterns.  Such text consists of ASCII characters, white
  space and the four code points that IGNORECASE equates with an ASCII letter: U+0130
  and U+0131 (with I), U+017F (with S) and U+212A (with K); see \<open>ci_match\<close> below.  On
  these the mappings are the ones of Unicode; every other code point is returned as it
  is.
\<close>

definition is_az :: "pychar \<Rightarrow> bool" where
  "is_az c \<longleftrightarrow> 0x61 \<le> c \<and> c \<le> 0x7A"

definition is_cased :: "pychar \<Rightarrow> bool" where
  "is_cased c \<longleftrightarrow> is_AZ c \<or> is_az c \<or> c = 0x130 \<or> c = 0x131 \<or> c = 0x17F \<or> c = 0x212A"

definition to_lower :: "pychar \<Rightarrow> pystr" where
  "to_lower c =
     (if is_AZ c then [c + 0x20]
      else if c = 0x130 then [0x69, 0x307]
      else if c = 0x212A then [0x6B]
      else [c])"

definition to_upper :: "pychar \<Rightarrow> pystr" where
  "to_upper c =
     (if is_az c then [c - 0x20]
      else if c = 0x131 then [0x49]
      else if c = 0x17F then [0x53]
      else [c])"

text \<open>On the code points above the title case mapping is the upper case mapping.\<close>

definition to_title :: "pychar \<Rightarrow> pystr" where
  "to_title c = to_upper c"

definition upper :: "pystr \<Rightarrow> pystr" where
  "upper s = concat (map to_upper s)"

text \<open>
  \<^verbatim>\<open>s.title()\<close>: a cased character that follows a cased character is lowered, any other
  character is title-cased.
\<close>

fun title_from :: "bool \<Rightarrow> pystr \<Rightarrow> pystr" where
  "title_from previous_is_cased [] = []"
| "title_from previous_is_cased (c # cs) =
     (if previous_is_cased then to_lower c else to_title c) @ title_from (is_cased c) cs"

definition title :: "pystr \<Rightarrow> pystr" where
  "title s = title_from False s"

text \<open>
  \<^verbatim>\<open>\d\<close> in a \<^verbatim>\<open>str\<close> pattern: the Unicode decimal digits (category Nd).  They come in
  blocks of ten consecutive code points with the values 0 to 9; \<open>decimal_zeros\<close> lists
  the first code point of every block (Unicode 14.0, the table of CPython 3.11).
\<close>

definition decimal_zeros :: "pychar list" where
  "decimal_zeros =
    [0x30, 0x660, 0x6F0, 0x7C0, 0x966, 0x9E6, 0xA66, 0xAE6, 0xB66, 0xBE6, 0xC66, 0xCE6,
     0xD66, 0xDE6, 0xE50, 0xED0, 0xF20, 0x1040, 0x1090, 0x17E0, 0x1810, 0x1946, 0x19D0,
     0x1A80, 0x1A90, 0x1B50, 0x1BB0, 0x1C40, 0x1C50, 0xA620, 0xA8D0, 0xA900, 0xA9D0,
     0xA9F0, 0xAA50, 0xABF0, 0xFF10, 0x104A0, 0x10D30, 0x11066, 0x110F0, 0x11136,
     0x111D0, 0x112F0, 0x11450, 0x114D0, 0x11650, 0x116C0, 0x11730, 0x118E0, 0x11950,
     0x11C50, 0x11D50, 0x11DA0, 0x16A60, 0x16AC0, 0x16B50, 0x1D7CE, 0x1D7D8, 0x1D7E2,
     0x1D7EC, 0x1D7F6, 0x1E140, 0x1E2F0, 0x1E950, 0x1FBF0]"

definition is_decimal :: "pychar \<Rightarrow> bool" where
  "is_decimal c \<longleftrightarrow> list_ex (\<lambda>z. z \<le> c \<and> c < z + 10) decimal_zeros"

definition decimal_value :: "pychar \<Rightarrow> nat" where
  "decimal_value c =
     (case filter (\<lambda>z. z \<le> c \<and> c < z + 10) decimal_zeros of [] \<Rightarrow> 0 | z # _ \<Rightarrow> c - z)"

text \<open>
  \<^verbatim>\<open>int(s)\<close> for a string of decimal digits, which is all the program passes to it
  (\<open>sqft_match_digits\<close>, \<open>k_match_digits\<close> below).  \<^verbatim>\<open>ValueError\<close> is the result \<open>None\<close>: it is
  raised for the empty string, and for a string of more digits than the interpreter's
  limit on integer string conversion (\<^verbatim>\<open>sys.int_info.default_max_str_digits\<close>).
\<close>

definition int_max_str_digits :: nat where
  "int_max_str_digits = 4300"

definition py_int :: "pystr \<Rightarrow> int option" where
  "py_int s =
     (if s = [] \<or> int_max_str_digits < length s then None
      else Some (foldl (\<lambda>n c. 10 * n + int (decimal_value c)) 0 s))"

section \<open>Regular expressions\<close>

text \<open>
  A literal character of a pattern compiled with \<^verbatim>\<open>re.IGNORECASE\<close>, for the pattern
  characters of this program (ASCII letters, digits and the comma): it matches itself
  and its other ASCII case, and the letters I, S and K also match the code points whose
  lower case the \<^verbatim>\<open>re\<close> module equates with theirs.
\<close>

definition ci_match :: "pychar \<Rightarrow> pychar \<Rightarrow> bool" where
  "ci_match p c \<longleftrightarrow>
     c = p \<or> (is_AZ p \<and> c = p + 0x20) \<or> (is_az p \<and> c + 0x20 = p) \<or>
     ((p = 0x49 \<or> p = 0x69) \<and> (c = 0x130 \<or> c = 0x131)) \<or>
     ((p = 0x53 \<or> p = 0x73) \<and> c = 0x17F) \<or>
     ((p = 0x4B \<or> p = 0x6B) \<and> c = 0x212A)"

text \<open>
  The patterns of the program are built from single characters (a literal character or
  a character class), sequence, alternative, greedy repetition and capturing groups.
\<close>

datatype re =
  Chr "pychar \<Rightarrow> bool"
  | Eps
  | Seq re re
  | Alt re re
  | Star re
  | Grp nat re

text \<open>
  \<^verbatim>\<open>a+\<close> and \<^verbatim>\<open>a{1,}\<close> are \<open>Plus a\<close>, \<^verbatim>\<open>a?\<close> is \<open>Opt a\<close>, and a word of literal characters in
  a pattern compiled with \<^verbatim>\<open>re.IGNORECASE\<close> is \<open>lit\<close> of the word.
\<close>

definition Plus :: "re \<Rightarrow> re" where
  "Plus a = Seq a (Star a)"

definition Opt :: "re \<Rightarrow> re" where
  "Opt a = Alt a Eps"

fun lit :: "pystr \<Rightarrow> re" where
  "lit [] = Eps"
| "lit (p # ps) = Seq (Chr (ci_match p)) (lit ps)"

text \<open>
  A match at the start of a text: the matched text (group 0), the texts of the
  capturing groups, and the text after the match.
\<close>

type_synonym rmatch = "pystr \<times> (nat \<times> pystr) list \<times> pystr"

text \<open>The matches \<open>ys\<close> of the rest of a pattern, after \<open>m1\<close> with the groups \<open>g1\<close>.\<close>

definition prepend :: "pystr \<Rightarrow> (nat \<times> pystr) list \<Rightarrow> rmatch list \<Rightarrow> rmatch list" where
  "prepend m1 g1 ys = map (\<lambda>(m2, g2, r2). (m1 @ m2, g1 @ g2, r2)) ys"

text \<open>
  The matcher of \<^verbatim>\<open>re\<close> backtracks.  \<open>ms p xs\<close> lists all the ways in which \<open>p\<close> matches at
  the start of \<open>xs\<close>, in the order in which the matcher tries them: an alternative
  tries its left side first, a greedy repetition tries one more round before it tries
  to stop, and a round that consumes no text is not taken.  The match that is found is
  the first of the list.
\<close>

function ms :: "re \<Rightarrow> pystr \<Rightarrow> rmatch list" where
  "ms (Chr P) xs = (case xs of [] \<Rightarrow> [] | c # r \<Rightarrow> if P c then [([c], [], r)] else [])"
| "ms Eps xs = [([], [], xs)]"
| "ms (Seq a b) xs = concat (map (\<lambda>(m1, g1, r1). prepend m1 g1 (ms b r1)) (ms a xs))"
| "ms (Alt a b) xs = ms a xs @ ms b xs"
| "ms (Star a) xs =
     concat (map (\<lambda>(m1, g1, r1).
                if length r1 < length xs then prepend m1 g1 (ms (Star a) r1) else [])
             (ms a xs))
     @ [([], [], xs)]"
| "ms (Grp n a) xs = map (\<lambda>(m, g, r). (m, (n, m) # g, r)) (ms a xs)"
  by pat_completeness auto
termination
  by (relation "measures [\<lambda>(p, xs). size p, \<lambda>(p, xs). length xs]") auto

declare ms.simps(5) [simp del]

definition match_at :: "re \<Rightarrow> pystr \<Rightarrow> rmatch option" where
  "match_at p xs = (case ms p xs of [] \<Rightarrow> None | x # _ \<Rightarrow> Some x)"

text \<open>
  \<^verbatim>\<open>match.group(n)\<close>.  In the patterns of the program no capturing group lies inside a
  repetition or an alternative, so every match captures each group once.
\<close>

definition group :: "rmatch \<Rightarrow> nat \<Rightarrow> pystr" where
  "group mt n =
     (case mt of (m, g, r) \<Rightarrow>
        if n = 0 then m else (case map_of g n of None \<Rightarrow> [] | Some t \<Rightarrow> t))"

text \<open>
  \<^verbatim>\<open>re.search\<close>: the pattern is tried at every position from the left (the end of the
  text included), and the first position where it matches gives the result.
\<close>

fun re_search :: "re \<Rightarrow> pystr \<Rightarrow> rmatch option" where
  "re_search p [] = match_at p []"
| "re_search p (c # xs) =
     (case match_at p (c # xs) of Some mt \<Rightarrow> Some mt | None \<Rightarrow> re_search p xs)"

section \<open>The whitespace normalizer: \<^verbatim>\<open>remove_extra_spaces_in_uppercase\<close>\<close>

text \<open>The pattern \<^verbatim>\<open>((?:[A-Z]\s+){1,}[A-Z])\<close>, compiled without flags.\<close>

definition pattern :: re where
  "pattern = Grp 1 (Seq (Plus (Seq (Chr is_AZ) (Plus (Chr is_space)))) (Chr is_AZ))"

text \<open>The replacement function: \<^verbatim>\<open>match.group(0).replace(" ", "")\<close>.\<close>

definition repl :: "rmatch \<Rightarrow> pystr" where
  "repl mt = replace_char 0x20 [] (group mt 0)"

text \<open>
  Every way of matching splits the text into the matched text and the rest, and a
  match of the pattern ends with a letter, so it is not empty: the text after a match
  is shorter than the text.
\<close>

lemma ms_split: "(m, g, r) \<in> set (ms p xs) \<Longrightarrow> xs = m @ r"
proof (induction p xs arbitrary: m g r rule: ms.induct)
  case (1 P xs)
  then show ?case by (auto split: list.splits if_splits)
next
  case (2 xs)
  then show ?case by simp
next
  case (3 a b xs)
  from "3.prems" obtain m1 g1 r1 m2 g2 r2 where
    a: "(m1, g1, r1) \<in> set (ms a xs)" and b: "(m2, g2, r2) \<in> set (ms b r1)"
    and e: "m = m1 @ m2" "r = r2"
    by (auto simp: prepend_def)
  from "3.IH"(1) [OF a] have "xs = m1 @ r1" .
  moreover from "3.IH"(2) [OF a refl refl b] have "r1 = m2 @ r2" .
  ultimately show ?case using e by simp
next
  case (4 a b xs)
  then show ?case by auto
next
  case (5 a xs)
  from "5.prems" consider "m = []" "r = xs"
    | m1 g1 r1 m2 g2 r2 where "(m1, g1, r1) \<in> set (ms a xs)" "length r1 < length xs"
        "(m2, g2, r2) \<in> set (ms (Star a) r1)" "m = m1 @ m2" "r = r2"
    by (auto simp: ms.simps(5) [of a xs] prepend_def split: if_splits)
  then show ?case
  proof cases
    case 1
    then show ?thesis by simp
  next
    case 2
    from "5.IH"(1) [OF 2(1)] have "xs = m1 @ r1" .
    moreover from "5.IH"(2) [OF 2(1) refl refl 2(2) 2(3)] have "r1 = m2 @ r2" .
    ultimately show ?thesis using 2 by simp
  qed
next
  case (6 n a xs)
  then show ?case by auto
qed

lemma ms_ends_with_Chr: "(m, g, r) \<in> set (ms (Seq a (Chr P)) xs) \<Longrightarrow> m \<noteq> []"
  by (auto simp: prepend_def split: list.splits if_splits)

lemma pattern_consumes:
  assumes "match_at pattern xs = Some (m, g, rest)"
  shows "length rest < length xs"
proof -
  from assms have in_ms: "(m, g, rest) \<in> set (ms pattern xs)"
    by (auto simp: match_at_def split: list.splits)
  then have "xs = m @ rest" by (rule ms_split)
  moreover from in_ms obtain g' where
    "(m, g', rest) \<in> set (ms (Seq (Plus (Seq (Chr is_AZ) (Plus (Chr is_space)))) (Chr is_AZ)) xs)"
    unfolding pattern_def by (auto simp del: ms.simps simp add: ms.simps(6))
  then have "m \<noteq> []" by (rule ms_ends_with_Chr)
  ultimately show ?thesis by simp
qed

text \<open>
  \<^verbatim>\<open>pattern.sub(repl, s)\<close>: the leftmost match is replaced by what \<^verbatim>\<open>repl\<close> returns for it,
  and the scan goes on after the match; a character at which the pattern does not
  match is copied.
\<close>

function pattern_sub :: "pystr \<Rightarrow> pystr" where
  "pattern_sub xs =
     (case match_at pattern xs of
        Some (m, g, rest) \<Rightarrow> repl (m, g, rest) @ pattern_sub rest
      | None \<Rightarrow> (case xs of [] \<Rightarrow> [] | c # r \<Rightarrow> c # pattern_sub r))"
  by pat_completeness auto
termination
  by (relation "measure length") (auto dest: pattern_consumes)

declare pattern_sub.simps [simp del]

definition remove_extra_spaces_in_uppercase :: "pystr \<Rightarrow> pystr" where
  "remove_extra_spaces_in_uppercase s = pattern_sub (replace_char 0x0A (str '' '') s)"

section \<open>The text extractor: \<^verbatim>\<open>extract_text_from_pdf\<close>\<close>

text \<open>
  The PDF library is outside the program.  What it does with a file is one of two
  things: it raises an exception, with some message \<^verbatim>\<open>str(e)\<close>, or it yields the pages'
  texts, where \<^verbatim>\<open>page.extract_text()\<close> is a string or \<^verbatim>\<open>None\<close>.
\<close>

type_synonym 'f pdf_reader = "'f \<Rightarrow> pystr + pystr option list"

definition extract_text_from_pdf :: "'f pdf_reader \<Rightarrow> 'f \<Rightarrow> pystr + pystr" where
  "extract_text_from_pdf reader file_stream =
     (case reader file_stream of
        Inl e \<Rightarrow> Inl (str ''Error processing PDF file: '' @ e)
      | Inr pages \<Rightarrow>
          Inr (foldl (\<lambda>text page_text.
                  case page_text of
                    None \<Rightarrow> text
                  | Some t \<Rightarrow> if t = [] then text else text @ t @ [0x0A])
                [] pages))"

section \<open>The field extractor: \<^verbatim>\<open>parse_key_data\<close>\<close>

record extraction_result =
  property_name :: "pystr option"
  address :: "pystr option"
  total_rentable_square_footage :: "int option"

text \<open>
  The four patterns, each compiled with \<^verbatim>\<open>re.IGNORECASE\<close>: \<^verbatim>\<open>(280\s+RICHARDS)\<close>,
  \<^verbatim>\<open>(BROOKLYN)[,]?\s*(NEWYOR(?:CITY)?)\<close>, \<^verbatim>\<open>([\d,]+)\s*(?:square\s*feet|sf)\<close> and
  \<^verbatim>\<open>(\d+)\s*K\<close>.
\<close>

definition prop_name_pattern :: re where
  "prop_name_pattern =
     Grp 1 (Seq (lit (str ''280'')) (Seq (Plus (Chr is_space)) (lit (str ''RICHARDS''))))"

definition address_pattern :: re where
  "address_pattern =
     Seq (Grp 1 (lit (str ''BROOKLYN'')))
       (Seq (Opt (Chr (\<lambda>c. c = 0x2C)))
         (Seq (Star (Chr is_space))
           (Grp 2 (Seq (lit (str ''NEWYOR'')) (Opt (lit (str ''CITY'')))))))"

definition digit_or_comma :: "pychar \<Rightarrow> bool" where
  "digit_or_comma c \<longleftrightarrow> is_decimal c \<or> c = 0x2C"

definition sqft_pattern :: re where
  "sqft_pattern =
     Seq (Grp 1 (Plus (Chr digit_or_comma)))
       (Seq (Star (Chr is_space))
         (Alt (Seq (lit (str ''square'')) (Seq (Star (Chr is_space)) (lit (str ''feet''))))
              (lit (str ''sf''))))"

definition k_pattern :: re where
  "k_pattern = Seq (Grp 1 (Plus (Chr is_decimal))) (Seq (Star (Chr is_space)) (lit (str ''K'')))"

definition parse_key_data :: "pystr \<Rightarrow> extraction_result" where
  "parse_key_data pdf_text =
     (let cleaned_text = remove_extra_spaces_in_uppercase pdf_text in
      \<lparr>property_name =
         (case re_search prop_name_pattern cleaned_text of
            None \<Rightarrow> None
          | Some prop_name_match \<Rightarrow> Some (title (strip (group prop_name_match 1)))),
       address =
         (case re_search address_pattern cleaned_text of
            None \<Rightarrow> None
          | Some address_match \<Rightarrow>
              let borough = title (group address_match 1);
                  ny_variant = upper (group address_match 2);
                  ny = (if ny_variant = str ''NEWYORCITY'' then str ''New York City''
                        else if ny_variant = str ''NEWYOR'' then str ''New York''
                        else title ny_variant)
              in Some (borough @ str '', '' @ ny)),
       total_rentable_square_footage =
         (case re_search sqft_pattern cleaned_text of
            Some sqft_match \<Rightarrow> py_int (replace_char 0x2C [] (group sqft_match 1))
          | None \<Rightarrow>
              (case re_search k_pattern cleaned_text of
                 None \<Rightarrow> None
               | Some k_match \<Rightarrow> map_option (\<lambda>n. n * 1000) (py_int (group k_match 1))))\<rparr>)"

section \<open>The HTTP handler: \<^verbatim>\<open>parse_pdf_api\<close>\<close>

text \<open>
  A request carries at most one part named \<^verbatim>\<open>file\<close>, with a file name and a content.
  A response is a JSON body and a status code.
\<close>

record 'f upload =
  filename :: pystr
  content :: 'f

datatype body =
  Error pystr
  | Partial pystr extraction_result
  | Extracted extraction_result

definition has_None :: "extraction_result \<Rightarrow> bool" where
  "has_None key_data \<longleftrightarrow>
     property_name key_data = None \<or> address key_data = None \<or>
     total_rentable_square_footage key_data = None"

definition parse_pdf_api :: "'f pdf_reader \<Rightarrow> 'f upload option \<Rightarrow> body \<times> nat" where
  "parse_pdf_api reader file_part =
     (case file_part of
        None \<Rightarrow> (Error (str ''No file part in the request.''), 400)
      | Some pdf_file \<Rightarrow>
          if filename pdf_file = [] then (Error (str ''No selected file.''), 400)
          else (case extract_text_from_pdf reader (content pdf_file) of
                  Inl e \<Rightarrow> (Error e, 500)
                | Inr pdf_text \<Rightarrow>
                    let key_data = parse_key_data pdf_text in
                    if has_None key_data
                    then (Partial (str ''Could not reliably extract all key information.'') key_data, 422)
                    else (Extracted key_data, 200)))"

section \<open>Definitions that follow the specification\<close>

subsection \<open>The normalizer\<close>

text \<open>
  The specification describes the normalizer by what it does to the text, not by a
  pattern: after the newlines are replaced, white space is deleted inside every run of
  upper-case letters separated by white space.  A white space character lies in such a
  run when the nearest character before its white space block is an upper-case letter
  and so is the nearest character after it.  \<open>collapse_runs del b\<close> copies the text and
  leaves out the white space characters of such runs that \<open>del\<close> selects; \<open>b\<close> says
  whether the last character before the current white space block is an upper-case
  letter.
\<close>

definition next_is_upper :: "pystr \<Rightarrow> bool" where
  "next_is_upper xs = (case dropWhile is_space xs of [] \<Rightarrow> False | d # _ \<Rightarrow> is_AZ d)"

fun collapse_runs :: "(pychar \<Rightarrow> bool) \<Rightarrow> bool \<Rightarrow> pystr \<Rightarrow> pystr" where
  "collapse_runs del b [] = []"
| "collapse_runs del b (c # xs) =
     (if is_space c
      then (if b \<and> next_is_upper xs \<and> del c then collapse_runs del b xs
            else c # collapse_runs del b xs)
      else c # collapse_runs del (is_AZ c) xs)"

definition normalizer_spec :: "(pychar \<Rightarrow> bool) \<Rightarrow> pystr \<Rightarrow> pystr" where
  "normalizer_spec del s = collapse_runs del False (replace_char 0x0A (str '' '') s)"

subsection \<open>The text extractor\<close>

text \<open>
  The specification has the page texts joined by a newline as separator, a page without
  text giving an empty segment: \<open>joined_pages\<close>.  The program ends every page that has
  text with a newline and skips the other pages: \<open>terminated_pages\<close>.
\<close>

fun join :: "pystr \<Rightarrow> pystr list \<Rightarrow> pystr" where
  "join sep [] = []"
| "join sep [x] = x"
| "join sep (x # y # ys) = x @ sep @ join sep (y # ys)"

definition joined_pages :: "pystr option list \<Rightarrow> pystr" where
  "joined_pages pages = join [0x0A] (map (\<lambda>p. case p of None \<Rightarrow> [] | Some t \<Rightarrow> t) pages)"

definition terminated_pages :: "pystr option list \<Rightarrow> pystr" where
  "terminated_pages pages =
     concat (map (\<lambda>p. case p of None \<Rightarrow> [] | Some t \<Rightarrow> if t = [] then [] else t @ [0x0A]) pages)"

subsection \<open>Words in any letter case\<close>


section \<open>The patterns without backtracking\<close>

text \<open>
  On the patterns of the program the matcher has no real choice: where a greedy
  repetition could give back a character, the rest of the pattern cannot match.  For
  each pattern there is therefore a function that reads the text once from the left
  and finds the same match as the backtracking matcher.  This section defines these
  functions and proves that they agree with the matcher; the properties of the
  program are then proved from them.
\<close>

subsection \<open>Matching in one pass\<close>

text \<open>
  A sequence of literal characters matched at the start of the text: the matched text
  and the text after it.
\<close>

fun literal_ic :: "pystr \<Rightarrow> pystr \<Rightarrow> (pystr \<times> pystr) option" where
  "literal_ic [] xs = Some ([], xs)"
| "literal_ic (p # ps) [] = None"
| "literal_ic (p # ps) (c # xs) =
     (if ci_match p c
      then (case literal_ic ps xs of None \<Rightarrow> None | Some (m, r) \<Rightarrow> Some (c # m, r))
      else None)"

text \<open>
  A function that tries to match at the start of a text, applied at every position from
  the left (the end of the text included): the first position where it succeeds gives
  the result.
\<close>

fun scan :: "(pystr \<Rightarrow> 'a option) \<Rightarrow> pystr \<Rightarrow> 'a option" where
  "scan m [] = m []"
| "scan m (c # xs) = (case m (c # xs) of Some g \<Rightarrow> Some g | None \<Rightarrow> scan m xs)"

lemma literal_ic_Some:
  "literal_ic pat xs = Some (m, r) \<Longrightarrow> xs = m @ r \<and> list_all2 ci_match pat m"
  by (induction pat xs arbitrary: m r rule: literal_ic.induct)
    (auto split: if_splits option.splits)

lemma AZ_not_space: "is_AZ c \<Longrightarrow> \<not> is_space c"
  by (auto simp: is_AZ_def is_space_def)

text \<open>
  The pattern of the normalizer, \<^verbatim>\<open>((?:[A-Z]\s+){1,}[A-Z])\<close>.  A match starts at an
  upper-case letter and continues with links \<^verbatim>\<open>\s+[A-Z]\<close>, at least one and as many as
  there are (the repetition is greedy; a shorter \<^verbatim>\<open>\s+\<close> would leave a white space
  character where a letter is required, so backtracking finds nothing else).
  \<open>links xs\<close> is the longest sequence of links at the start of \<open>xs\<close>, with the text that
  follows it.
\<close>

function links :: "pystr \<Rightarrow> pystr \<times> pystr" where
  "links xs =
     (case dropWhile is_space xs of
        [] \<Rightarrow> ([], xs)
      | c # r \<Rightarrow>
          if takeWhile is_space xs \<noteq> [] \<and> is_AZ c
          then (case links r of (m, rest) \<Rightarrow> (takeWhile is_space xs @ c # m, rest))
          else ([], xs))"
  by pat_completeness auto
termination
proof (relation "measure length")
  show "wf (measure length)" by simp
next
  fix xs :: pystr and c r
  assume "dropWhile is_space xs = c # r"
  then have "length (c # r) \<le> length xs"
    by (metis length_dropWhile_le)
  then show "(r, xs) \<in> measure length" by simp
qed

declare links.simps [simp del]

text \<open>The pattern tried at the start of the text: group 0 and the text after the match.\<close>

definition pattern_at :: "pystr \<Rightarrow> (pystr \<times> pystr) option" where
  "pattern_at s =
     (case s of
        [] \<Rightarrow> None
      | c # xs \<Rightarrow>
          if is_AZ c
          then (case links xs of (m, rest) \<Rightarrow> if m = [] then None else Some (c # m, rest))
          else None)"

lemma links_Nil: "dropWhile is_space xs = [] \<Longrightarrow> links xs = ([], xs)"
  by (subst links.simps) (simp only: list.case)

lemma links_stop:
  "dropWhile is_space xs = c # r \<Longrightarrow> \<not> (takeWhile is_space xs \<noteq> [] \<and> is_AZ c) \<Longrightarrow>
   links xs = ([], xs)"
  by (subst links.simps) (simp only: list.case if_False)

lemma links_step:
  "dropWhile is_space xs = c # r \<Longrightarrow> takeWhile is_space xs \<noteq> [] \<Longrightarrow> is_AZ c \<Longrightarrow>
   links xs = (takeWhile is_space xs @ c # fst (links r), snd (links r))"
  by (subst links.simps) (simp only: list.case simp_thms if_True split_beta)

lemma links_length: "length (snd (links xs)) \<le> length xs"
proof (induction xs rule: links.induct)
  case (1 xs)
  show ?case
  proof (cases "dropWhile is_space xs")
    case Nil
    then show ?thesis by (simp add: links_Nil)
  next
    case (Cons c r)
    have le: "length (c # r) \<le> length xs"
      by (metis Cons length_dropWhile_le)
    show ?thesis
    proof (cases "takeWhile is_space xs \<noteq> [] \<and> is_AZ c")
      case True
      with 1 Cons have "length (snd (links r)) \<le> length r" by blast
      moreover from True Cons have "snd (links xs) = snd (links r)"
        by (simp add: links_step)
      ultimately show ?thesis using le by simp
    next
      case False
      show ?thesis by (simp add: links_stop [OF Cons False])
    qed
  qed
qed

lemma pattern_at_length:
  "pattern_at s = Some (g, rest) \<Longrightarrow> length rest < length s"
  using links_length
  by (auto simp: pattern_at_def split: list.splits if_splits prod.splits)
    (metis le_imp_less_Suc snd_conv)

text \<open>
  \<^verbatim>\<open>(280\s+RICHARDS)\<close> at the start of the text; the result is group 1.  The white space
  run is taken whole: a shorter one would be followed by white space, not by R.
\<close>

definition prop_name_at :: "pystr \<Rightarrow> pystr option" where
  "prop_name_at s =
     (case literal_ic (str ''280'') s of
        None \<Rightarrow> None
      | Some (d, r) \<Rightarrow>
          if takeWhile is_space r = [] then None
          else (case literal_ic (str ''RICHARDS'') (dropWhile is_space r) of
                  None \<Rightarrow> None
                | Some (w, _) \<Rightarrow> Some (d @ takeWhile is_space r @ w)))"

text \<open>
  \<^verbatim>\<open>(BROOKLYN)[,]?\s*(NEWYOR(?:CITY)?)\<close> at the start of the text; the result is groups 1
  and 2.  The optional parts are greedy, and nothing else can match where one of them
  is given up.
\<close>

definition address_at :: "pystr \<Rightarrow> (pystr \<times> pystr) option" where
  "address_at s =
     (case literal_ic (str ''BROOKLYN'') s of
        None \<Rightarrow> None
      | Some (g1, r) \<Rightarrow>
          (case literal_ic (str ''NEWYOR'')
                  (dropWhile is_space (case r of [] \<Rightarrow> r | c # r' \<Rightarrow> if c = 0x2C then r' else r)) of
             None \<Rightarrow> None
           | Some (n, r2) \<Rightarrow>
               (case literal_ic (str ''CITY'') r2 of
                  None \<Rightarrow> Some (g1, n)
                | Some (c, _) \<Rightarrow> Some (g1, n @ c))))"

text \<open>
  \<^verbatim>\<open>([\d,]+)\s*(?:square\s*feet|sf)\<close> at the start of the text; the result is group 1, the
  whole run of digits and commas (after a shorter one comes a digit or a comma, where
  the pattern wants white space or the letter s).
\<close>

definition sqft_at :: "pystr \<Rightarrow> pystr option" where
  "sqft_at s =
     (let r = dropWhile is_space (dropWhile digit_or_comma s) in
      if takeWhile digit_or_comma s = [] then None
      else if (case literal_ic (str ''square'') r of
                 None \<Rightarrow> False
               | Some (_, r') \<Rightarrow> literal_ic (str ''feet'') (dropWhile is_space r') \<noteq> None)
              \<or> literal_ic (str ''sf'') r \<noteq> None
      then Some (takeWhile digit_or_comma s)
      else None)"

text \<open>\<^verbatim>\<open>(\d+)\s*K\<close> at the start of the text; the result is group 1.\<close>

definition k_at :: "pystr \<Rightarrow> pystr option" where
  "k_at s =
     (if takeWhile is_decimal s = [] then None
      else if literal_ic (str ''K'') (dropWhile is_space (dropWhile is_decimal s)) = None then None
      else Some (takeWhile is_decimal s))"

subsection \<open>Facts about the matcher\<close>

lemma prepend_Nil [simp]: "prepend m g [] = []"
  by (simp add: prepend_def)

lemma prepend_empty [simp]: "prepend [] [] ys = ys"
  by (simp add: prepend_def)

lemma prepend_append [simp]: "prepend m g (ys @ zs) = prepend m g ys @ prepend m g zs"
  by (simp add: prepend_def)

lemma prepend_prepend [simp]: "prepend m g (prepend m' g' ys) = prepend (m @ m') (g @ g') ys"
  by (simp add: prepend_def split_beta)

lemma prepend_concat: "prepend m g (concat yss) = concat (map (prepend m g) yss)"
  by (induction yss) simp_all

lemma prepend_eq_Nil [simp]: "prepend m g ys = [] \<longleftrightarrow> ys = []"
  by (simp add: prepend_def)

lemma concat_prepend:
  "concat (map (\<lambda>(m1, g1, r1). prepend m1 g1 (f r1)) (prepend m g ys)) =
   prepend m g (concat (map (\<lambda>(m1, g1, r1). prepend m1 g1 (f r1)) ys))"
  by (induction ys) (auto simp: prepend_def split_beta)

lemma ms_Seq_assoc: "ms (Seq (Seq a b) c) xs = ms (Seq a (Seq b c)) xs"
proof -
  have "concat (map (\<lambda>(m1, g1, r1). prepend m1 g1 (ms c r1))
          (concat (map (\<lambda>(m1, g1, r1). prepend m1 g1 (ms b r1)) ys))) =
        concat (map (\<lambda>(m1, g1, r1). prepend m1 g1
          (concat (map (\<lambda>(m1, g1, r1). prepend m1 g1 (ms c r1)) (ms b r1)))) ys)"
    for ys :: "rmatch list"
    by (induction ys) (auto simp: concat_prepend)
  then show ?thesis by simp
qed

lemma ms_lit:
  "ms (lit w) xs = (case literal_ic w xs of None \<Rightarrow> [] | Some (m, r) \<Rightarrow> [(m, [], r)])"
proof (induction w arbitrary: xs)
  case Nil
  show ?case by simp
next
  case (Cons p w)
  show ?case
  proof (cases xs)
    case Nil
    then show ?thesis by simp
  next
    case (Cons c r)
    with Cons.IH [of r] show ?thesis
      by (auto simp: prepend_def split: option.splits)
  qed
qed

text \<open>A greedy run of characters of one class, followed by something that cannot start
  with a character of the class: the run is taken whole.\<close>

lemma ms_Star_Chr:
  "ms (Star (Chr P)) (c # r) =
     (if P c then prepend [c] [] (ms (Star (Chr P)) r) else []) @ [([], [], c # r)]"
  by (simp add: ms.simps(5) [of "Chr P" "c # r"])

lemma ms_Star_Chr_Nil: "ms (Star (Chr P)) [] = [([], [], [])]"
  by (simp add: ms.simps(5) [of "Chr P" "[]"])

lemma ms_Star_run:
  assumes "\<And>c r. P c \<Longrightarrow> ms k (c # r) = []"
  shows "ms (Seq (Star (Chr P)) k) xs = prepend (takeWhile P xs) [] (ms k (dropWhile P xs))"
proof (induction xs)
  case Nil
  show ?case by (simp add: ms_Star_Chr_Nil)
next
  case (Cons c r)
  show ?case
  proof (cases "P c")
    case True
    have "ms (Seq (Star (Chr P)) k) (c # r) =
        concat (map (\<lambda>(m1, g1, r1). prepend m1 g1 (ms k r1)) (prepend [c] [] (ms (Star (Chr P)) r)))
        @ ms k (c # r)"
      using True by (simp add: ms_Star_Chr)
    also have "concat (map (\<lambda>(m1, g1, r1). prepend m1 g1 (ms k r1)) (prepend [c] [] (ms (Star (Chr P)) r))) =
        prepend [c] [] (ms (Seq (Star (Chr P)) k) r)"
      by (simp add: concat_prepend)
    finally show ?thesis using True Cons assms by simp
  next
    case False
    then show ?thesis by (simp add: ms_Star_Chr)
  qed
qed

lemma ms_Plus_run:
  assumes "\<And>c r. P c \<Longrightarrow> ms k (c # r) = []"
  shows "ms (Seq (Plus (Chr P)) k) xs =
     (if takeWhile P xs = [] then [] else prepend (takeWhile P xs) [] (ms k (dropWhile P xs)))"
proof (cases xs)
  case Nil
  then show ?thesis by (simp add: Plus_def)
next
  case (Cons c r)
  have "ms (Seq (Plus (Chr P)) k) xs = ms (Seq (Chr P) (Seq (Star (Chr P)) k)) xs"
    unfolding Plus_def by (rule ms_Seq_assoc)
  also have "\<dots> = (if P c then prepend [c] [] (ms (Seq (Star (Chr P)) k) r) else [])"
    using Cons by simp
  also have "\<dots> = (if P c then prepend [c] [] (prepend (takeWhile P r) [] (ms k (dropWhile P r))) else [])"
    by (simp only: ms_Star_run [of P k, OF assms])
  finally show ?thesis using Cons by simp
qed

lemma ms_Seq_lit:
  "ms (Seq (lit w) k) xs =
     (case literal_ic w xs of None \<Rightarrow> [] | Some (m, r) \<Rightarrow> prepend m [] (ms k r))"
  by (simp add: ms_lit split: option.splits)

lemma ms_Seq_Grp_lit:
  "ms (Seq (Grp n (lit w)) k) xs =
     (case literal_ic w xs of None \<Rightarrow> [] | Some (m, r) \<Rightarrow> prepend m [(n, m)] (ms k r))"
  by (simp add: ms_lit split: option.splits)

lemma literal_ic_first:
  "literal_ic (p # w) (c # r) \<noteq> None \<Longrightarrow> ci_match p c"
  by (auto split: if_splits)

lemma ms_lit_first: "\<not> ci_match p c \<Longrightarrow> ms (lit (p # w)) (c # r) = []"
  by simp

text \<open>The results of a greedy run: the whole run first; every later result leaves a
  character of the class behind.\<close>

lemma ms_Star_Chr_shape:
  "\<exists>ys. ms (Star (Chr P)) xs = (takeWhile P xs, [], dropWhile P xs) # ys \<and>
        (\<forall>(m, g, r) \<in> set ys. r \<noteq> [] \<and> P (hd r))"
proof (induction xs)
  case Nil
  show ?case by (simp add: ms_Star_Chr_Nil)
next
  case (Cons c xs)
  show ?case
  proof (cases "P c")
    case True
    from Cons obtain ys where
      ys: "ms (Star (Chr P)) xs = (takeWhile P xs, [], dropWhile P xs) # ys"
      "\<forall>(m, g, r) \<in> set ys. r \<noteq> [] \<and> P (hd r)" by blast
    have "ms (Star (Chr P)) (c # xs) =
        (takeWhile P (c # xs), [], dropWhile P (c # xs)) # (prepend [c] [] ys @ [([], [], c # xs)])"
      using True ys(1) by (simp add: ms_Star_Chr prepend_def)
    moreover have "\<forall>(m, g, r) \<in> set (prepend [c] [] ys @ [([], [], c # xs)]). r \<noteq> [] \<and> P (hd r)"
      using ys(2) True by (auto simp: prepend_def)
    ultimately show ?thesis by blast
  next
    case False
    then have "ms (Star (Chr P)) (c # xs) = (takeWhile P (c # xs), [], dropWhile P (c # xs)) # []"
      by (simp add: ms_Star_Chr)
    then show ?thesis by simp
  qed
qed

lemma ms_Plus_Chr_shape:
  "takeWhile P xs \<noteq> [] \<Longrightarrow>
   \<exists>ys. ms (Plus (Chr P)) xs = (takeWhile P xs, [], dropWhile P xs) # ys \<and>
        (\<forall>(m, g, r) \<in> set ys. r \<noteq> [] \<and> P (hd r))"
proof -
  assume t: "takeWhile P xs \<noteq> []"
  then obtain c r where xs: "xs = c # r" and c: "P c"
    by (cases xs) (auto split: if_splits)
  from ms_Star_Chr_shape [of P r] obtain ys where
    ys: "ms (Star (Chr P)) r = (takeWhile P r, [], dropWhile P r) # ys"
    "\<forall>(m, g, r) \<in> set ys. r \<noteq> [] \<and> P (hd r)" by blast
  have "ms (Plus (Chr P)) xs = (takeWhile P xs, [], dropWhile P xs) # prepend [c] [] ys"
    using xs c ys(1) by (simp add: Plus_def prepend_def)
  moreover have "\<forall>(m, g, r) \<in> set (prepend [c] [] ys). r \<noteq> [] \<and> P (hd r)"
    using ys(2) by (auto simp: prepend_def)
  ultimately show ?thesis by blast
qed

lemma ms_Plus_Chr_Nil: "takeWhile P xs = [] \<Longrightarrow> ms (Plus (Chr P)) xs = []"
  by (cases xs) (auto simp: Plus_def split: if_splits)

lemma ms_Seq_Grp_Plus_run:
  assumes "\<And>c r. P c \<Longrightarrow> ms k (c # r) = []"
  shows "ms (Seq (Grp n (Plus (Chr P))) k) xs =
     (if takeWhile P xs = [] then []
      else prepend (takeWhile P xs) [(n, takeWhile P xs)] (ms k (dropWhile P xs)))"
proof (cases "takeWhile P xs = []")
  case True
  then show ?thesis by (simp add: ms_Plus_Chr_Nil)
next
  case False
  from ms_Plus_Chr_shape [OF False] obtain ys where
    ys: "ms (Plus (Chr P)) xs = (takeWhile P xs, [], dropWhile P xs) # ys"
    "\<forall>(m, g, r) \<in> set ys. r \<noteq> [] \<and> P (hd r)" by blast
  have rest: "concat (map (\<lambda>(m1, g1, r1). prepend m1 g1 (ms k r1))
      (map (\<lambda>(m, g, r). (m, (n, m) # g, r)) zs)) = []"
    if "\<forall>(m, g, r) \<in> set zs. r \<noteq> [] \<and> P (hd r)" for zs :: "rmatch list"
    using that
  proof (induction zs)
    case Nil
    show ?case by simp
  next
    case (Cons z zs)
    obtain m g r where z: "z = (m, g, r)" by (cases z)
    with Cons.prems obtain c r' where "r = c # r'" "P c" by (cases r) auto
    with assms have "ms k r = []" by simp
    with Cons z show ?case by simp
  qed
  show ?thesis
    using False ys(1) rest [OF ys(2)] by simp
qed

lemma match_at_Nil: "ms p xs = [] \<Longrightarrow> match_at p xs = None"
  by (simp add: match_at_def)

lemma match_at_Cons: "ms p xs = y # ys \<Longrightarrow> match_at p xs = Some y"
  by (simp add: match_at_def)

lemma space_not_ci: "is_space c \<Longrightarrow> is_AZ p \<or> is_az p \<Longrightarrow> \<not> ci_match p c"
  by (auto simp: ci_match_def is_space_def is_AZ_def is_az_def)

subsection \<open>The property name pattern\<close>

lemma ms_prop_name_pattern:
  "ms prop_name_pattern xs =
     (case prop_name_at xs of None \<Rightarrow> []
      | Some t \<Rightarrow> [(t, [(1, t)], drop (length t) xs)])"
proof -
  have k: "ms (lit (str ''RICHARDS'')) (c # r) = []" if "is_space c" for c r
    using space_not_ci [OF that, of "0x52"] by (simp add: is_AZ_def)
  have run: "ms (Seq (Plus (Chr is_space)) (lit (str ''RICHARDS''))) r =
      (if takeWhile is_space r = [] then []
       else prepend (takeWhile is_space r) [] (ms (lit (str ''RICHARDS'')) (dropWhile is_space r)))"
    for r
    by (rule ms_Plus_run) (rule k)
  show ?thesis
  proof (cases "literal_ic (str ''280'') xs")
    case None
    then show ?thesis
      by (simp only: prop_name_pattern_def ms.simps(6) ms_Seq_lit prop_name_at_def option.case)
        simp
  next
    case (Some a)
    obtain d r where a: "a = (d, r)" by (cases a)
    from literal_ic_Some [of "str ''280''" xs d r] Some a have xs: "xs = d @ r" by simp
    show ?thesis
    proof (cases "takeWhile is_space r = []")
      case True
      with Some a show ?thesis
        by (simp only: prop_name_pattern_def ms.simps(6) ms_Seq_lit prop_name_at_def
            option.case prod.case run if_True)
          simp
    next
      case False
      show ?thesis
      proof (cases "literal_ic (str ''RICHARDS'') (dropWhile is_space r)")
        case None
        with Some a False show ?thesis
          by (simp only: prop_name_pattern_def ms.simps(6) ms_Seq_lit prop_name_at_def
              option.case prod.case run if_False ms_lit)
            simp
      next
        case (Some b)
        obtain w q where b: "b = (w, q)" by (cases b)
        from literal_ic_Some [of "str ''RICHARDS''" "dropWhile is_space r" w q] Some b
        have dw: "dropWhile is_space r = w @ q" by simp
        have "r = takeWhile is_space r @ w @ q"
          using takeWhile_dropWhile_id [of is_space r] dw by simp
        with xs have "xs = (d @ takeWhile is_space r @ w) @ q" by simp
        then have q: "drop (length (d @ takeWhile is_space r @ w)) xs = q"
          by (metis append_eq_conv_conj)
        from \<open>literal_ic (str ''280'') xs = Some a\<close> a Some b False q show ?thesis
          by (simp only: prop_name_pattern_def ms.simps(6) ms_Seq_lit prop_name_at_def
              option.case prod.case run if_False ms_lit)
            (simp add: prepend_def)
      qed
    qed
  qed
qed

lemma match_prop_name_pattern:
  "map_option (\<lambda>mt. group mt 1) (match_at prop_name_pattern xs) = prop_name_at xs"
  by (simp add: match_at_def ms_prop_name_pattern group_def split: option.splits)

subsection \<open>The K pattern\<close>

lemma is_space_cases:
  "is_space c \<longleftrightarrow> c \<in> set [0x09, 0x0A, 0x0B, 0x0C, 0x0D, 0x1C, 0x1D, 0x1E, 0x1F, 0x20, 0x85, 0xA0,
     0x1680, 0x2000, 0x2001, 0x2002, 0x2003, 0x2004, 0x2005, 0x2006, 0x2007, 0x2008, 0x2009,
     0x200A, 0x2028, 0x2029, 0x202F, 0x205F, 0x3000]"
  unfolding is_space_def by (simp del: One_nat_def) arith

lemma decimal_not_space: "is_decimal c \<Longrightarrow> \<not> is_space c"
proof
  assume d: "is_decimal c" and "is_space c"
  then have "c \<in> set [0x09, 0x0A, 0x0B, 0x0C, 0x0D, 0x1C, 0x1D, 0x1E, 0x1F, 0x20, 0x85, 0xA0,
     0x1680, 0x2000, 0x2001, 0x2002, 0x2003, 0x2004, 0x2005, 0x2006, 0x2007, 0x2008, 0x2009,
     0x200A, 0x2028, 0x2029, 0x202F, 0x205F, 0x3000]"
    by (simp only: is_space_cases)
  moreover have "\<forall>x \<in> set [0x09, 0x0A, 0x0B, 0x0C, 0x0D, 0x1C, 0x1D, 0x1E, 0x1F, 0x20, 0x85, 0xA0,
     0x1680, 0x2000, 0x2001, 0x2002, 0x2003, 0x2004, 0x2005, 0x2006, 0x2007, 0x2008, 0x2009,
     0x200A, 0x2028, 0x2029, 0x202F, 0x205F, 0x3000::nat]. \<not> is_decimal x"
    by (simp add: is_decimal_def decimal_zeros_def)
  ultimately show False using d by blast
qed

lemma ms_k_pattern:
  "ms k_pattern xs =
     (case k_at xs of None \<Rightarrow> []
      | Some t \<Rightarrow>
          (case literal_ic (str ''K'') (dropWhile is_space (dropWhile is_decimal xs)) of
             None \<Rightarrow> []
           | Some (m, r) \<Rightarrow> [(t @ takeWhile is_space (dropWhile is_decimal xs) @ m, [(1, t)], r)]))"
proof -
  have k1: "ms (lit (str ''K'')) (c # r) = []" if "is_space c" for c r
    using space_not_ci [OF that, of "0x4B"] by (simp add: is_AZ_def)
  have tail: "ms (Seq (Star (Chr is_space)) (lit (str ''K''))) r =
      prepend (takeWhile is_space r) [] (ms (lit (str ''K'')) (dropWhile is_space r))" for r
    by (rule ms_Star_run) (rule k1)
  have k2: "ms (Seq (Star (Chr is_space)) (lit (str ''K''))) (c # r) = []" if "is_decimal c" for c r
  proof -
    from that have "\<not> is_space c" by (rule decimal_not_space)
    moreover have "\<not> ci_match 0x4B c"
    proof
      assume "ci_match 0x4B c"
      then have "c = 0x4B \<or> c = 0x6B \<or> c = 0x212A"
        by (auto simp: ci_match_def is_AZ_def is_az_def)
      moreover have "\<not> is_decimal 0x4B" "\<not> is_decimal 0x6B" "\<not> is_decimal 0x212A"
        by (simp_all add: is_decimal_def decimal_zeros_def)
      ultimately show False using that by auto
    qed
    ultimately show ?thesis by (simp only: tail) simp
  qed
  have "ms k_pattern xs =
      (if takeWhile is_decimal xs = [] then []
       else prepend (takeWhile is_decimal xs) [(1, takeWhile is_decimal xs)]
              (ms (Seq (Star (Chr is_space)) (lit (str ''K''))) (dropWhile is_decimal xs)))"
    unfolding k_pattern_def by (rule ms_Seq_Grp_Plus_run) (rule k2)
  then show ?thesis
    by (simp only: tail ms_lit k_at_def)
      (auto simp: prepend_def split: option.splits)
qed

lemma match_k_pattern:
  "map_option (\<lambda>mt. group mt 1) (match_at k_pattern xs) = k_at xs"
  by (auto simp: match_at_def ms_k_pattern group_def k_at_def split: option.splits if_splits)

subsection \<open>The square feet pattern\<close>

lemma digit_or_comma_not_space: "digit_or_comma c \<Longrightarrow> \<not> is_space c"
proof -
  assume "digit_or_comma c"
  then consider "is_decimal c" | "c = 0x2C" by (auto simp: digit_or_comma_def)
  then show ?thesis
  proof cases
    case 1
    then show ?thesis by (rule decimal_not_space)
  next
    case 2
    then show ?thesis by (simp add: is_space_def)
  qed
qed

lemma digit_or_comma_not_s: "digit_or_comma c \<Longrightarrow> \<not> ci_match 0x73 c"
proof
  assume d: "digit_or_comma c" and "ci_match 0x73 c"
  then have "c = 0x73 \<or> c = 0x53 \<or> c = 0x17F"
    by (auto simp: ci_match_def is_AZ_def is_az_def)
  moreover have "\<not> digit_or_comma 0x73" "\<not> digit_or_comma 0x53" "\<not> digit_or_comma 0x17F"
    by (simp_all add: digit_or_comma_def is_decimal_def decimal_zeros_def)
  ultimately show False using d by auto
qed

text \<open>The unit of the pattern: \<^verbatim>\<open>(?:square\s*feet|sf)\<close>.\<close>

definition sqft_unit :: re where
  "sqft_unit = Alt (Seq (lit (str ''square'')) (Seq (Star (Chr is_space)) (lit (str ''feet''))))
                   (lit (str ''sf''))"

lemma ms_feet: "ms (Seq (Star (Chr is_space)) (lit (str ''feet''))) r =
    prepend (takeWhile is_space r) [] (ms (lit (str ''feet'')) (dropWhile is_space r))"
proof (rule ms_Star_run)
  fix c r
  assume "is_space c"
  then have "\<not> ci_match 0x66 c" by (rule space_not_ci) (simp add: is_az_def)
  then show "ms (lit (str ''feet'')) (c # r) = []" by simp
qed

lemma ms_sqft_unit_first: "\<not> ci_match 0x73 c \<Longrightarrow> ms sqft_unit (c # r) = []"
  by (simp add: sqft_unit_def)

lemma ms_sqft_unit_Nil:
  "ms sqft_unit r = [] \<longleftrightarrow>
     \<not> ((case literal_ic (str ''square'') r of None \<Rightarrow> False
         | Some (_, r') \<Rightarrow> literal_ic (str ''feet'') (dropWhile is_space r') \<noteq> None)
        \<or> literal_ic (str ''sf'') r \<noteq> None)"
  unfolding sqft_unit_def
  by (simp only: ms.simps(4) ms_Seq_lit ms_feet ms_lit)
    (auto split: option.splits)

lemma ms_sqft_tail:
  "ms (Seq (Star (Chr is_space)) sqft_unit) r =
     prepend (takeWhile is_space r) [] (ms sqft_unit (dropWhile is_space r))"
proof (rule ms_Star_run)
  fix c r
  assume "is_space c"
  then have "\<not> ci_match 0x73 c" by (rule space_not_ci) (simp add: is_az_def)
  then show "ms sqft_unit (c # r) = []" by (rule ms_sqft_unit_first)
qed

lemma ms_sqft_pattern:
  "ms sqft_pattern xs =
     (if takeWhile digit_or_comma xs = [] then []
      else prepend (takeWhile digit_or_comma xs) [(1, takeWhile digit_or_comma xs)]
             (prepend (takeWhile is_space (dropWhile digit_or_comma xs)) []
                (ms sqft_unit (dropWhile is_space (dropWhile digit_or_comma xs)))))"
proof -
  have k: "ms (Seq (Star (Chr is_space)) sqft_unit) (c # r) = []" if "digit_or_comma c" for c r
    using digit_or_comma_not_space [OF that] digit_or_comma_not_s [OF that]
    by (simp only: ms_sqft_tail) (simp add: ms_sqft_unit_first)
  have p: "sqft_pattern = Seq (Grp 1 (Plus (Chr digit_or_comma))) (Seq (Star (Chr is_space)) sqft_unit)"
    by (simp add: sqft_pattern_def sqft_unit_def)
  show ?thesis
    unfolding p
    by (simp only: ms_Seq_Grp_Plus_run [of digit_or_comma "Seq (Star (Chr is_space)) sqft_unit", OF k]
        ms_sqft_tail)
qed

lemma sqft_at_unit:
  "sqft_at xs =
     (if takeWhile digit_or_comma xs = [] then None
      else if ms sqft_unit (dropWhile is_space (dropWhile digit_or_comma xs)) = [] then None
      else Some (takeWhile digit_or_comma xs))"
  unfolding sqft_at_def Let_def ms_sqft_unit_Nil by simp

lemma match_sqft_pattern:
  "map_option (\<lambda>mt. group mt 1) (match_at sqft_pattern xs) = sqft_at xs"
proof (cases "takeWhile digit_or_comma xs = []")
  case True
  then show ?thesis by (simp add: match_at_def ms_sqft_pattern sqft_at_def)
next
  case False
  let ?r = "dropWhile is_space (dropWhile digit_or_comma xs)"
  show ?thesis
  proof (cases "ms sqft_unit ?r")
    case Nil
    then have "ms sqft_pattern xs = []" by (simp add: ms_sqft_pattern)
    moreover from Nil have "sqft_at xs = None"
      using False by (simp add: sqft_at_unit)
    ultimately show ?thesis by (simp add: match_at_def)
  next
    case (Cons y ys)
    obtain m g r where y: "y = (m, g, r)" by (cases y)
    from Cons have "ms sqft_unit ?r \<noteq> []" by simp
    then have s: "sqft_at xs = Some (takeWhile digit_or_comma xs)"
      using False by (simp add: sqft_at_unit)
    from Cons y False have "\<exists>zs m' g'. ms sqft_pattern xs =
        (m', (1, takeWhile digit_or_comma xs) # g', r) # zs"
      by (simp add: ms_sqft_pattern prepend_def)
    then show ?thesis by (auto simp: match_at_def group_def s)
  qed
qed

subsection \<open>The address pattern\<close>

text \<open>The second group of the pattern: \<^verbatim>\<open>(NEWYOR(?:CITY)?)\<close>.\<close>

definition city :: re where
  "city = Grp 2 (Seq (lit (str ''NEWYOR'')) (Opt (lit (str ''CITY''))))"

lemma ms_city:
  "ms city r =
     (case literal_ic (str ''NEWYOR'') r of None \<Rightarrow> []
      | Some (n, r2) \<Rightarrow>
          (case literal_ic (str ''CITY'') r2 of
             None \<Rightarrow> [(n, [(2, n)], r2)]
           | Some (c, r3) \<Rightarrow> [(n @ c, [(2, n @ c)], r3), (n, [(2, n)], r2)]))"
  unfolding city_def Opt_def
  by (simp only: ms.simps(6) ms_Seq_lit ms.simps(4) ms_lit ms.simps(2))
    (auto simp: prepend_def split: option.splits)

lemma ms_city_first: "\<not> ci_match 0x4E c \<Longrightarrow> ms city (c # r) = []"
  by (simp add: ms_city)

lemma ms_address_tail:
  "ms (Seq (Star (Chr is_space)) city) r = prepend (takeWhile is_space r) [] (ms city (dropWhile is_space r))"
proof (rule ms_Star_run)
  fix c r
  assume "is_space c"
  then have "\<not> ci_match 0x4E c" by (rule space_not_ci) (simp add: is_AZ_def)
  then show "ms city (c # r) = []" by (rule ms_city_first)
qed

lemma ms_opt_comma:
  "ms (Seq (Opt (Chr (\<lambda>c. c = 0x2C))) (Seq (Star (Chr is_space)) city)) r =
     (case r of
        [] \<Rightarrow> ms (Seq (Star (Chr is_space)) city) r
      | c # r' \<Rightarrow>
          if c = 0x2C then prepend [c] [] (ms (Seq (Star (Chr is_space)) city) r')
          else ms (Seq (Star (Chr is_space)) city) r)"
proof (cases r)
  case Nil
  then show ?thesis by (simp add: Opt_def)
next
  case (Cons c r')
  show ?thesis
  proof (cases "c = 0x2C")
    case True
    then have "\<not> is_space c" "\<not> ci_match 0x4E c"
      by (simp_all add: is_space_def ci_match_def is_AZ_def is_az_def)
    then have "ms (Seq (Star (Chr is_space)) city) (c # r') = []"
      by (simp only: ms_address_tail) (simp add: ms_city_first)
    with Cons True show ?thesis
      by (simp add: Opt_def del: ms.simps(3)) (simp add: ms.simps(3) [of "Chr _"])
  next
    case False
    with Cons show ?thesis
      by (simp add: Opt_def del: ms.simps(3)) (simp add: ms.simps(3) [of "Chr _"])
  qed
qed

lemma match_address_pattern:
  "map_option (\<lambda>mt. (group mt 1, group mt 2)) (match_at address_pattern xs) = address_at xs"
proof -
  have p: "address_pattern =
      Seq (Grp 1 (lit (str ''BROOKLYN''))) (Seq (Opt (Chr (\<lambda>c. c = 0x2C))) (Seq (Star (Chr is_space)) city))"
    by (simp add: address_pattern_def city_def)
  show ?thesis
  proof (cases "literal_ic (str ''BROOKLYN'') xs")
    case None
    have "ms address_pattern xs = []"
      by (simp only: p ms_Seq_Grp_lit None option.case)
    moreover have "address_at xs = None"
      using None by (simp add: address_at_def)
    ultimately show ?thesis by (simp add: match_at_def)
  next
    case (Some a)
    obtain g1 r where a: "a = (g1, r)" by (cases a)
    define r1 where "r1 = (case r of [] \<Rightarrow> r | c # r' \<Rightarrow> if c = 0x2C then r' else r)"
    define sep where "sep = (case r of [] \<Rightarrow> [] | c # r' \<Rightarrow> if c = 0x2C then [c] else [])"
    have oc: "ms (Seq (Opt (Chr (\<lambda>c. c = 0x2C))) (Seq (Star (Chr is_space)) city)) r =
        prepend sep [] (prepend (takeWhile is_space r1) [] (ms city (dropWhile is_space r1)))"
      by (simp only: ms_opt_comma ms_address_tail r1_def sep_def)
        (simp split: list.splits)
    have full: "ms address_pattern xs =
        prepend g1 [(1, g1)]
          (prepend sep [] (prepend (takeWhile is_space r1) [] (ms city (dropWhile is_space r1))))"
      using Some a by (simp only: p ms_Seq_Grp_lit option.case prod.case oc)
    show ?thesis
    proof (cases "literal_ic (str ''NEWYOR'') (dropWhile is_space r1)")
      case None
      then have "ms city (dropWhile is_space r1) = []" by (simp add: ms_city)
      with full have "ms address_pattern xs = []" by simp
      moreover from None Some a have "address_at xs = None"
        by (simp add: address_at_def r1_def)
      ultimately show ?thesis by (simp add: match_at_def)
    next
      case n: (Some b)
      obtain n r2 where b: "b = (n, r2)" by (cases b)
      show ?thesis
      proof (cases "literal_ic (str ''CITY'') r2")
        case None
        with n b have "ms city (dropWhile is_space r1) = [(n, [(2, n)], r2)]"
          by (simp add: ms_city)
        with full have "\<exists>m. ms address_pattern xs = [(m, [(1, g1), (2, n)], r2)]"
          by (simp add: prepend_def)
        moreover from None n b Some a have "address_at xs = Some (g1, n)"
          by (simp add: address_at_def r1_def)
        ultimately show ?thesis by (auto simp: match_at_def group_def)
      next
        case c: (Some d)
        obtain c r3 where d: "d = (c, r3)" by (cases d)
        with c n b have "ms city (dropWhile is_space r1) =
            [(n @ c, [(2, n @ c)], r3), (n, [(2, n)], r2)]"
          by (simp add: ms_city)
        with full have "\<exists>m ys. ms address_pattern xs = (m, [(1, g1), (2, n @ c)], r3) # ys"
          by (simp add: prepend_def)
        moreover from c d n b Some a have "address_at xs = Some (g1, n @ c)"
          by (simp add: address_at_def r1_def)
        ultimately show ?thesis by (auto simp: match_at_def group_def)
      qed
    qed
  qed
qed

subsection \<open>The pattern of the normalizer\<close>

lemma ms_Star_Seq:
  "ms (Seq (Star a) k) xs =
     concat (map (\<lambda>(m1, g1, r1).
        if length r1 < length xs then prepend m1 g1 (ms (Seq (Star a) k) r1) else []) (ms a xs))
     @ ms k xs"
proof -
  have "concat (map (\<lambda>(m1, g1, r1). prepend m1 g1 (ms k r1))
          (concat (map (\<lambda>(m1, g1, r1).
             if length r1 < length xs then prepend m1 g1 (ms (Star a) r1) else []) zs))) =
        concat (map (\<lambda>(m1, g1, r1).
          if length r1 < length xs then prepend m1 g1 (ms (Seq (Star a) k) r1) else []) zs)"
    for zs :: "rmatch list"
    by (induction zs) (auto simp: concat_prepend)
  then show ?thesis by (simp add: ms.simps(5) [of a xs])
qed

text \<open>One round of the repetition: \<^verbatim>\<open>[A-Z]\s+\<close>.\<close>

abbreviation link :: re where "link \<equiv> Seq (Chr is_AZ) (Plus (Chr is_space))"

lemma link_then:
  assumes "\<And>d q. is_space d \<Longrightarrow> f (d # q) = []"
  shows "concat (map (\<lambda>(m1, g1, r1). prepend m1 g1 (f r1)) (ms link xs)) =
     (case xs of [] \<Rightarrow> []
      | c # r \<Rightarrow>
          if is_AZ c \<and> takeWhile is_space r \<noteq> []
          then prepend (c # takeWhile is_space r) [] (f (dropWhile is_space r))
          else [])"
proof (cases xs)
  case Nil
  then show ?thesis by simp
next
  case (Cons c r)
  show ?thesis
  proof (cases "is_AZ c \<and> takeWhile is_space r \<noteq> []")
    case False
    then have "ms link xs = []"
      using Cons ms_Plus_Chr_Nil [of is_space r] by auto
    with False Cons show ?thesis by auto
  next
    case True
    then have az: "is_AZ c" and tw: "takeWhile is_space r \<noteq> []" by simp_all
    from ms_Plus_Chr_shape [OF tw] obtain ys where
      ys: "ms (Plus (Chr is_space)) r = (takeWhile is_space r, [], dropWhile is_space r) # ys"
      "\<forall>(m, g, r) \<in> set ys. r \<noteq> [] \<and> is_space (hd r)" by blast
    have rest: "concat (map (\<lambda>(m1, g1, r1). prepend m1 g1 (f r1)) (prepend [c] [] zs)) = []"
      if "\<forall>(m, g, r) \<in> set zs. r \<noteq> [] \<and> is_space (hd r)" for zs :: "rmatch list"
      using that
    proof (induction zs)
      case Nil
      show ?case by simp
    next
      case (Cons z zs)
      obtain m g q where z: "z = (m, g, q)" by (cases z)
      with Cons.prems obtain d q' where q: "q = d # q'" "is_space d" by (cases q) auto
      with assms have "f q = []" by simp
      with Cons z show ?case by (simp add: prepend_def)
    qed
    have "ms link xs = prepend [c] [] (ms (Plus (Chr is_space)) r)"
      using Cons az by simp
    then have "concat (map (\<lambda>(m1, g1, r1). prepend m1 g1 (f r1)) (ms link xs)) =
        prepend (c # takeWhile is_space r) [] (f (dropWhile is_space r))"
      using rest [OF ys(2)] by (simp add: ys(1) prepend_def)
    with True Cons show ?thesis by simp
  qed
qed

text \<open>
  What can follow the first letter and its white space: \<^verbatim>\<open>(?:[A-Z]\s+)*[A-Z]\<close>.
\<close>

definition chain :: "pystr \<Rightarrow> rmatch list" where
  "chain xs = ms (Seq (Star link) (Chr is_AZ)) xs"

lemma chain_unroll:
  "chain xs =
     concat (map (\<lambda>(m1, g1, r1).
        if length r1 < length xs then prepend m1 g1 (chain r1) else []) (ms link xs))
     @ ms (Chr is_AZ) xs"
  unfolding chain_def by (rule ms_Star_Seq)

lemma chain_Nil: "chain [] = []"
  by (subst chain_unroll) simp

lemma chain_not_AZ: "\<not> is_AZ c \<Longrightarrow> chain (c # r) = []"
  by (subst chain_unroll) simp

lemma chain_AZ:
  assumes "is_AZ c"
  shows "chain (c # r) =
     (if takeWhile is_space r = [] then []
      else prepend (c # takeWhile is_space r) [] (chain (dropWhile is_space r)))
     @ [([c], [], r)]"
proof -
  let ?f = "\<lambda>r1. if length r1 < length (c # r) then chain r1 else []"
  have eq: "(\<lambda>(m1, g1, r1). if length r1 < length (c # r) then prepend m1 g1 (chain r1) else []) =
      (\<lambda>(m1, g1, r1 :: pystr). prepend m1 g1 (?f r1))"
    by (auto simp: fun_eq_iff)
  have f: "?f (d # q) = []" if "is_space d" for d q
    using that AZ_not_space chain_not_AZ by auto
  have "length (dropWhile is_space r) < length (c # r)"
    using length_dropWhile_le [of is_space r] by simp
  then show ?thesis
    using assms
    by (subst chain_unroll) (simp only: eq link_then [of ?f, OF f], simp)
qed

text \<open>The first way to continue after an upper-case letter is the longest sequence of links.\<close>

lemma chain_first:
  "is_AZ c \<Longrightarrow>
   \<exists>ys. chain (c # r) = (c # fst (links r), [], snd (links r)) # ys"
proof (induction r arbitrary: c rule: links.induct)
  case (1 xs)
  show ?case
  proof (cases "takeWhile is_space xs = []")
    case True
    have "links xs = ([], xs)"
    proof (cases "dropWhile is_space xs")
      case Nil
      then show ?thesis by (rule links_Nil)
    next
      case (Cons d q)
      with True show ?thesis by (simp add: links_stop)
    qed
    with True "1.prems" show ?thesis by (simp add: chain_AZ)
  next
    case False
    show ?thesis
    proof (cases "dropWhile is_space xs")
      case Nil
      then have "links xs = ([], xs)" by (rule links_Nil)
      moreover have "chain (dropWhile is_space xs) = []" by (simp only: Nil chain_Nil)
      ultimately show ?thesis using "1.prems" by (simp add: chain_AZ)
    next
      case (Cons d q)
      show ?thesis
      proof (cases "is_AZ d")
        case True
        from "1.IH" [OF Cons _ True] False True obtain ys where
          "chain (d # q) = (d # fst (links q), [], snd (links q)) # ys"
          by blast
        moreover have "links xs = (takeWhile is_space xs @ d # fst (links q), snd (links q))"
          using Cons False True by (rule links_step)
        ultimately show ?thesis
          using False Cons "1.prems" by (simp add: chain_AZ prepend_def)
      next
        case d: False
        then have "links xs = ([], xs)" using Cons by (simp add: links_stop)
        with False Cons d "1.prems" show ?thesis by (simp add: chain_AZ chain_not_AZ)
      qed
    qed
  qed
qed

lemma ms_pattern:
  "ms pattern xs =
     (case xs of [] \<Rightarrow> []
      | c # r \<Rightarrow>
          if is_AZ c \<and> takeWhile is_space r \<noteq> []
          then map (\<lambda>(m, g, r). (m, (1, m) # g, r))
                 (prepend (c # takeWhile is_space r) [] (chain (dropWhile is_space r)))
          else [])"
proof -
  have k: "chain (d # r) = []" if "is_space d" for d r
    using that AZ_not_space chain_not_AZ by blast
  have "ms (Seq (Seq link (Star link)) (Chr is_AZ)) xs = ms (Seq link (Seq (Star link) (Chr is_AZ))) xs"
    by (rule ms_Seq_assoc)
  also have "\<dots> = concat (map (\<lambda>(m1, g1, r1). prepend m1 g1 (chain r1)) (ms link xs))"
    unfolding chain_def by (rule ms.simps(3))
  finally have "ms pattern xs =
      map (\<lambda>(m, g, r). (m, (1, m) # g, r))
        (concat (map (\<lambda>(m1, g1, r1). prepend m1 g1 (chain r1)) (ms link xs)))"
    unfolding pattern_def Plus_def [of link] ms.simps(6) by (rule arg_cong)
  then show ?thesis
    by (simp only: link_then [of chain, OF k]) (simp split: list.splits)
qed

lemma match_at_pattern:
  "match_at pattern xs =
     (case pattern_at xs of None \<Rightarrow> None | Some (m, rest) \<Rightarrow> Some (m, [(1, m)], rest))"
proof (cases xs)
  case Nil
  then show ?thesis by (simp add: match_at_def ms_pattern pattern_at_def)
next
  case (Cons c r)
  show ?thesis
  proof (cases "is_AZ c \<and> takeWhile is_space r \<noteq> []")
    case False
    have "fst (links r) = []" if "takeWhile is_space r = []"
    proof (cases "dropWhile is_space r")
      case Nil
      then show ?thesis by (simp add: links_Nil)
    next
      case (Cons d q)
      with that show ?thesis by (simp add: links_stop)
    qed
    with False Cons show ?thesis
      by (auto simp: match_at_def ms_pattern pattern_at_def split: prod.splits)
  next
    case True
    show ?thesis
    proof (cases "dropWhile is_space r")
      case Nil
      then have "links r = ([], r)" by (rule links_Nil)
      moreover have "chain (dropWhile is_space r) = []" by (simp only: Nil chain_Nil)
      ultimately show ?thesis
        using True Cons by (simp add: match_at_def ms_pattern pattern_at_def)
    next
      case d: (Cons d q)
      show ?thesis
      proof (cases "is_AZ d")
        case False
        then have "links r = ([], r)" using d by (simp add: links_stop)
        with True Cons d False show ?thesis
          by (simp add: match_at_def ms_pattern pattern_at_def chain_not_AZ)
      next
        case az: True
        from chain_first [OF az, of q] obtain ys where
          "chain (d # q) = (d # fst (links q), [], snd (links q)) # ys"
          by blast
        moreover have "links r = (takeWhile is_space r @ d # fst (links q), snd (links q))"
          using d True az by (simp add: links_step)
        ultimately show ?thesis
          using True Cons d
          by (simp add: match_at_def ms_pattern pattern_at_def prepend_def)
      qed
    qed
  qed
qed

subsection \<open>The program in terms of the one-pass functions\<close>

lemma search_is_scan: "re_search p s = scan (match_at p) s"
  by (induction s) (auto split: option.splits)

lemma scan_map_option: "map_option f (scan m s) = scan (\<lambda>xs. map_option f (m xs)) s"
  by (induction s) (auto split: option.splits)

lemma search_prop_name:
  "map_option (\<lambda>mt. group mt 1) (re_search prop_name_pattern s) = scan prop_name_at s"
  by (simp only: search_is_scan scan_map_option match_prop_name_pattern)

lemma search_address:
  "map_option (\<lambda>mt. (group mt 1, group mt 2)) (re_search address_pattern s) = scan address_at s"
  by (simp only: search_is_scan scan_map_option match_address_pattern)

lemma search_sqft:
  "map_option (\<lambda>mt. group mt 1) (re_search sqft_pattern s) = scan sqft_at s"
  by (simp only: search_is_scan scan_map_option match_sqft_pattern)

lemma search_k:
  "map_option (\<lambda>mt. group mt 1) (re_search k_pattern s) = scan k_at s"
  by (simp only: search_is_scan scan_map_option match_k_pattern)

lemma search_address_Some:
  "re_search address_pattern s = Some mt \<Longrightarrow> scan address_at s = Some (group mt 1, group mt 2)"
  using search_address [of s] by simp



lemma match_at_pattern_None: "match_at pattern xs = None \<longleftrightarrow> pattern_at xs = None"
  by (simp add: match_at_pattern split: option.splits)

lemma repl_filter: "repl (m, g, r) = filter (\<lambda>w. w \<noteq> 0x20) m"
  by (induction m) (auto simp: repl_def group_def replace_char_def)

lemma pattern_sub_Nil [simp]: "pattern_sub [] = []"
  by (subst pattern_sub.simps) (simp add: match_at_pattern pattern_at_def)

lemma pattern_sub_Cons [simp]:
  "pattern_sub (c # xs) =
     (case pattern_at (c # xs) of
        Some (g, rest) \<Rightarrow> filter (\<lambda>w. w \<noteq> 0x20) g @ pattern_sub rest
      | None \<Rightarrow> c # pattern_sub xs)"
  by (subst pattern_sub.simps) (simp add: match_at_pattern repl_filter split: option.splits)

lemma pattern_sub_induct [case_names Nil Cons]:
  assumes "P []"
    and "\<And>c xs. (\<And>g rest. pattern_at (c # xs) = Some (g, rest) \<Longrightarrow> P rest) \<Longrightarrow>
           (pattern_at (c # xs) = None \<Longrightarrow> P xs) \<Longrightarrow> P (c # xs)"
  shows "P xs"
proof (induction xs rule: length_induct)
  case (1 xs)
  show ?case
  proof (cases xs)
    case Nil
    with assms(1) show ?thesis by simp
  next
    case (Cons c r)
    have "P (c # r)"
    proof (rule assms(2))
      fix g rest
      assume "pattern_at (c # r) = Some (g, rest)"
      then have "length rest < length (c # r)" by (rule pattern_at_length)
      with 1 Cons show "P rest" by simp
    next
      from 1 Cons show "P r" by simp
    qed
    with Cons show ?thesis by simp
  qed
qed

lemma parse_key_data_matchers:
  "parse_key_data pdf_text =
     (let cleaned_text = remove_extra_spaces_in_uppercase pdf_text in
      \<lparr>property_name =
         (case scan prop_name_at cleaned_text of
            None \<Rightarrow> None
          | Some g1 \<Rightarrow> Some (title (strip g1))),
       address =
         (case scan address_at cleaned_text of
            None \<Rightarrow> None
          | Some (g1, g2) \<Rightarrow>
              let borough = title g1;
                  ny_variant = upper g2;
                  ny = (if ny_variant = str ''NEWYORCITY'' then str ''New York City''
                        else if ny_variant = str ''NEWYOR'' then str ''New York''
                        else title ny_variant)
              in Some (borough @ str '', '' @ ny)),
       total_rentable_square_footage =
         (case scan sqft_at cleaned_text of
            Some g1 \<Rightarrow> py_int (replace_char 0x2C [] g1)
          | None \<Rightarrow>
              (case scan k_at cleaned_text of
                 None \<Rightarrow> None
               | Some g1 \<Rightarrow> map_option (\<lambda>n. n * 1000) (py_int g1)))\<rparr>)"
  unfolding parse_key_data_def Let_def
    search_prop_name [symmetric] search_address [symmetric] search_sqft [symmetric]
    search_k [symmetric]
  by (simp split: option.splits)

section \<open>Properties of the normalizer\<close>

lemma next_is_upper_Cons [simp]:
  "next_is_upper (c # xs) = (if is_space c then next_is_upper xs else is_AZ c)"
  by (simp add: next_is_upper_def)

lemma next_is_upper_Nil [simp]: "\<not> next_is_upper []"
  by (simp add: next_is_upper_def)

lemma next_is_upper_collapse [simp]:
  "next_is_upper (collapse_runs del b xs) = next_is_upper xs"
  by (induction xs arbitrary: b) auto

lemma collapse_runs_idem:
  "collapse_runs del b (collapse_runs del b xs) = collapse_runs del b xs"
  by (induction xs arbitrary: b) auto

lemma collapse_flag_irrelevant:
  "\<not> next_is_upper xs \<Longrightarrow> collapse_runs del b xs = collapse_runs del b' xs"
  by (induction xs) (auto split: if_splits)

lemma collapse_flag_irrelevant':
  "xs = [] \<or> \<not> is_space (hd xs) \<Longrightarrow> collapse_runs del b xs = collapse_runs del b' xs"
  by (cases xs) auto

lemma next_is_upper_append:
  "\<forall>w\<in>set ws. is_space w \<Longrightarrow> next_is_upper (ws @ ys) = next_is_upper ys"
  by (induction ws) auto

lemma collapse_ws_run:
  "\<forall>w\<in>set ws. is_space w \<Longrightarrow> is_AZ c \<Longrightarrow>
   collapse_runs del True (ws @ c # r) = filter (\<lambda>w. \<not> del w) ws @ c # collapse_runs del True r"
  by (induction ws) (auto simp: AZ_not_space next_is_upper_append)

lemma links_empty: "fst (links xs) = [] \<Longrightarrow> snd (links xs) = xs"
proof (cases "dropWhile is_space xs")
  case Nil
  then show ?thesis by (simp add: links_Nil)
next
  case (Cons c r)
  assume e: "fst (links xs) = []"
  show ?thesis
  proof (cases "takeWhile is_space xs \<noteq> [] \<and> is_AZ c")
    case True
    with Cons e show ?thesis by (simp add: links_step)
  next
    case False
    show ?thesis by (simp add: links_stop [OF Cons False])
  qed
qed

lemma links_collapse:
  "collapse_runs (\<lambda>c. c = 0x20) True xs =
   filter (\<lambda>w. w \<noteq> 0x20) (fst (links xs)) @ collapse_runs (\<lambda>c. c = 0x20) False (snd (links xs))"
proof (induction xs rule: links.induct)
  case (1 xs)
  show ?case
  proof (cases "dropWhile is_space xs")
    case Nil
    have "\<not> next_is_upper xs" unfolding next_is_upper_def Nil by simp
    then show ?thesis
      using Nil by (simp add: links_Nil repl_filter collapse_flag_irrelevant [of xs _ True False])
  next
    case (Cons c r)
    show ?thesis
    proof (cases "takeWhile is_space xs \<noteq> [] \<and> is_AZ c")
      case True
      then have c: "is_AZ c" and tw: "takeWhile is_space xs \<noteq> []" by simp_all
      have xs: "xs = takeWhile is_space xs @ c # r"
        by (metis Cons takeWhile_dropWhile_id)
      have ws: "\<forall>w\<in>set (takeWhile is_space xs). is_space w"
        by (auto dest: set_takeWhileD)
      have IH: "collapse_runs (\<lambda>c. c = 0x20) True r =
        filter (\<lambda>w. w \<noteq> 0x20) (fst (links r)) @ collapse_runs (\<lambda>c. c = 0x20) False (snd (links r))"
        using 1 Cons True by blast
      have "collapse_runs (\<lambda>c. c = 0x20) True xs =
          collapse_runs (\<lambda>c. c = 0x20) True (takeWhile is_space xs @ c # r)"
        using xs by simp
      also have "\<dots> = filter (\<lambda>w. w \<noteq> 0x20) (takeWhile is_space xs) @ c #
          collapse_runs (\<lambda>c. c = 0x20) True r"
        using collapse_ws_run [OF ws c] by simp
      finally show ?thesis
        using IH c by (simp add: links_step [OF Cons tw c] repl_filter is_AZ_def)
    next
      case False
      have "collapse_runs (\<lambda>c. c = 0x20) True xs = collapse_runs (\<lambda>c. c = 0x20) False xs"
      proof (cases "takeWhile is_space xs = []")
        case True
        with Cons have "xs = c # r" by (metis append_Nil takeWhile_dropWhile_id)
        moreover have "\<not> is_space c"
          by (metis Cons hd_dropWhile list.sel(1) list.distinct(1))
        ultimately show ?thesis by simp
      next
        case nonempty: False
        with False have "\<not> is_AZ c" by simp
        then have "\<not> next_is_upper xs" unfolding next_is_upper_def Cons by simp
        then show ?thesis by (rule collapse_flag_irrelevant)
      qed
      then show ?thesis by (simp add: links_stop [OF Cons False] repl_filter)
    qed
  qed
qed

lemma pattern_sub_collapse: "pattern_sub xs = collapse_runs (\<lambda>c. c = 0x20) False xs"
proof (induction xs rule: pattern_sub_induct)
  case Nil
  show ?case by simp
next
  case (Cons c xs)
  note 2 = Cons
  show ?case
  proof (cases "pattern_at (c # xs)")
    case None
    show ?thesis
    proof (cases "is_AZ c")
      case True
      with None have e: "fst (links xs) = []"
        by (auto simp: pattern_at_def split: prod.splits if_splits)
      then have "snd (links xs) = xs" by (rule links_empty)
      with e have "collapse_runs (\<lambda>c. c = 0x20) True xs = collapse_runs (\<lambda>c. c = 0x20) False xs"
        using links_collapse [of xs] by (simp add: repl_filter)
      with 2 None True show ?thesis by (simp add: AZ_not_space)
    next
      case False
      with 2 None show ?thesis by simp
    qed
  next
    case (Some a)
    obtain g rest where a: "a = (g, rest)" by (cases a)
    with Some have c: "is_AZ c" and g: "g = c # fst (links xs)" and r: "rest = snd (links xs)"
      by (auto simp: pattern_at_def split: prod.splits if_splits)
    from 2 Some a have "pattern_sub rest = collapse_runs (\<lambda>c. c = 0x20) False rest" by simp
    with Some a c g r show ?thesis
      using links_collapse [of xs] by (simp add: AZ_not_space repl_filter is_AZ_def)
  qed
qed

lemma pattern_sub_idem: "pattern_sub (pattern_sub xs) = pattern_sub xs"
  by (simp add: pattern_sub_collapse collapse_runs_idem)

lemma set_collapse: "set (collapse_runs del b xs) \<subseteq> set xs"
  by (induction xs arbitrary: b) auto

lemma replace_char_id: "old \<notin> set s \<Longrightarrow> replace_char old new s = s"
  by (induction s) (auto simp: replace_char_def)

lemma replace_newline_free: "0x0A \<notin> set (replace_char 0x0A (str '' '') s)"
  by (induction s) (auto simp: replace_char_def)

lemma normalizer_idem:
  "remove_extra_spaces_in_uppercase (remove_extra_spaces_in_uppercase s) =
   remove_extra_spaces_in_uppercase s"
proof -
  let ?t = "replace_char 0x0A (str '' '') s"
  have "0x0A \<notin> set (pattern_sub ?t)"
    using set_collapse [of "\<lambda>c. c = 0x20" False ?t] replace_newline_free [of s]
    by (auto simp: pattern_sub_collapse)
  then have "replace_char 0x0A (str '' '') (pattern_sub ?t) = pattern_sub ?t"
    by (rule replace_char_id)
  then show ?thesis
    by (simp add: remove_extra_spaces_in_uppercase_def pattern_sub_idem)
qed

text \<open>
  C7.  The normalizer is idempotent: applied to its own output it returns that output.
\<close>

theorem normalizer_idempotent:
  "remove_extra_spaces_in_uppercase (remove_extra_spaces_in_uppercase s) =
   remove_extra_spaces_in_uppercase s"
proof -
  let ?once = "remove_extra_spaces_in_uppercase s"
  have "?once = collapse_runs (\<lambda>c. c = 0x20) False (replace_char 0x0A (str '' '') s)"
    by (simp add: remove_extra_spaces_in_uppercase_def pattern_sub_collapse)
  then have "set ?once \<subseteq> set (replace_char 0x0A (str '' '') s)"
    by (simp add: set_collapse)
  with replace_newline_free [of s] have "0x0A \<notin> set ?once" by blast
  then have "replace_char 0x0A (str '' '') ?once = ?once"
    by (rule replace_char_id)
  then have "remove_extra_spaces_in_uppercase ?once = pattern_sub ?once"
    by (simp add: remove_extra_spaces_in_uppercase_def)
  also have "\<dots> = ?once"
    by (simp add: remove_extra_spaces_in_uppercase_def pattern_sub_idem)
  finally show ?thesis .
qed

text \<open>
  C6, as stated: the normalizer deletes all white space inside a run of spaced
  upper-case letters.  It does not: the replacement function deletes the character
  U+0020 only, so a tab between two upper-case letters stays.
\<close>

theorem normalizer_keeps_tab:
  "remove_extra_spaces_in_uppercase [0x41, 0x09, 0x42] = [0x41, 0x09, 0x42] \<and>
   normalizer_spec is_space [0x41, 0x09, 0x42] = [0x41, 0x42]"
  by (simp add: remove_extra_spaces_in_uppercase_def normalizer_spec_def pattern_sub_collapse
      replace_char_def is_space_def is_AZ_def)

text \<open>
  C6, amended: the normalizer replaces every newline by a space and then deletes the
  space characters (U+0020) inside every run of upper-case ASCII letters separated by
  white space; every other character, other white space included, is left as it is.
\<close>

theorem normalizer_deletes_spaces_in_runs:
  "remove_extra_spaces_in_uppercase s = normalizer_spec (\<lambda>c. c = 0x20) s"
proof -
  have "remove_extra_spaces_in_uppercase s = pattern_sub (replace_char 0x0A (str '' '') s)"
    by (simp add: remove_extra_spaces_in_uppercase_def)
  also have "\<dots> = collapse_runs (\<lambda>c. c = 0x20) False (replace_char 0x0A (str '' '') s)"
    by (rule pattern_sub_collapse)
  also have "\<dots> = normalizer_spec (\<lambda>c. c = 0x20) s"
    by (simp add: normalizer_spec_def)
  finally show ?thesis .
qed

text \<open>
  C10.  Normalizing the text before it is given to the field extractor changes nothing,
  since the extractor normalizes its input itself.
\<close>

theorem parse_key_data_normalized:
  "parse_key_data (remove_extra_spaces_in_uppercase s) = parse_key_data s"
proof -
  have "remove_extra_spaces_in_uppercase (remove_extra_spaces_in_uppercase s) =
      remove_extra_spaces_in_uppercase s"
    by (rule normalizer_idem)
  then show ?thesis
    unfolding parse_key_data_matchers by simp
qed

section \<open>Evaluation on concrete texts\<close>

lemmas char_defs = is_space_def is_AZ_def is_az_def is_decimal_def decimal_zeros_def
  digit_or_comma_def ci_match_def is_cased_def to_lower_def to_upper_def to_title_def

lemmas normalizer_eval = remove_extra_spaces_in_uppercase_def pattern_sub_collapse replace_char_def

lemmas matcher_defs = prop_name_at_def address_at_def sqft_at_def k_at_def

lemmas string_defs = title_def strip_def upper_def py_int_def int_max_str_digits_def
  decimal_value_def

section \<open>The text extractor\<close>

lemma foldl_pages:
  "foldl (\<lambda>text page_text.
            case page_text of
              None \<Rightarrow> text
            | Some t \<Rightarrow> if t = [] then text else text @ t @ [0x0A]) acc pages =
   acc @ terminated_pages pages"
  by (induction pages arbitrary: acc) (auto simp: terminated_pages_def split: option.splits)

text \<open>
  C8, as stated: the page texts are joined by a single newline, and a page without text
  contributes an empty segment.  For the three pages "a", no text, "b" that would be
  "a", two newlines, "b"; the program returns "a", newline, "b", newline.
\<close>

theorem text_extractor_not_joined:
  "extract_text_from_pdf (\<lambda>f. Inr [Some (str ''a''), None, Some (str ''b'')]) () =
     Inr (str ''a'' @ [0x0A] @ str ''b'' @ [0x0A]) \<and>
   joined_pages [Some (str ''a''), None, Some (str ''b'')] = str ''a'' @ [0x0A, 0x0A] @ str ''b''"
  by (simp add: extract_text_from_pdf_def joined_pages_def)

text \<open>
  C8, amended: when the PDF library yields the page texts, the text extractor returns,
  in page order, every non-empty page text followed by a newline; a page without text
  (\<^verbatim>\<open>None\<close> or the empty string) contributes nothing.
\<close>

theorem text_extractor_terminates_pages:
  "reader file_stream = Inr pages \<Longrightarrow>
   extract_text_from_pdf reader file_stream = Inr (terminated_pages pages)"
  by (simp add: extract_text_from_pdf_def foldl_pages)

theorem text_extractor_terminates_pages_witness:
  "extract_text_from_pdf (\<lambda>f. Inr [Some (str ''a''), None, Some [], Some (str ''b'')]) () =
     Inr (str ''a'' @ [0x0A] @ str ''b'' @ [0x0A])"
  using text_extractor_terminates_pages
    [of "\<lambda>f. Inr [Some (str ''a''), None, Some [], Some (str ''b'')]" "()"
        "[Some (str ''a''), None, Some [], Some (str ''b'')]"]
  by (simp add: terminated_pages_def)

section \<open>The fields of the result\<close>


lemma parse_address:
  "address (parse_key_data s) =
     (case scan address_at (remove_extra_spaces_in_uppercase s) of
        None \<Rightarrow> None
      | Some (g1, g2) \<Rightarrow>
          Some (title g1 @ str '', '' @
            (if upper g2 = str ''NEWYORCITY'' then str ''New York City''
             else if upper g2 = str ''NEWYOR'' then str ''New York''
             else title (upper g2))))"
  by (simp add: parse_key_data_matchers Let_def split: option.splits)

lemma parse_sqft:
  "total_rentable_square_footage (parse_key_data s) =
     (case scan sqft_at (remove_extra_spaces_in_uppercase s) of
        Some g1 \<Rightarrow> py_int (replace_char 0x2C [] g1)
      | None \<Rightarrow>
          (case scan k_at (remove_extra_spaces_in_uppercase s) of
             None \<Rightarrow> None
           | Some g1 \<Rightarrow> map_option (\<lambda>n. n * 1000) (py_int g1)))"
  by (simp add: parse_key_data_matchers Let_def)

section \<open>The HTTP handler\<close>






section \<open>Square footage\<close>

text \<open>
  C5.  Whenever the square-feet pattern matches the cleaned text, the field is what
  \<^verbatim>\<open>int\<close> makes of the matched digits with the commas removed, and nothing else: the K
  pattern plays no part.  In particular the field is null when \<^verbatim>\<open>int\<close> fails, also in
  a text where the K pattern matches (the witness is such a text).
\<close>

theorem sqft_pattern_takes_precedence:
  "re_search sqft_pattern (remove_extra_spaces_in_uppercase s) = Some sqft_match \<Longrightarrow>
   total_rentable_square_footage (parse_key_data s) =
     py_int (replace_char 0x2C [] (group sqft_match 1))"
  by (simp add: parse_key_data_def Let_def)

theorem sqft_pattern_takes_precedence_witness:
  "map_option (\<lambda>mt. group mt 1)
     (re_search sqft_pattern (remove_extra_spaces_in_uppercase (str '', sf 5K''))) =
     Some (str '','') \<and>
   map_option (\<lambda>mt. group mt 1)
     (re_search k_pattern (remove_extra_spaces_in_uppercase (str '', sf 5K''))) =
     Some (str ''5'') \<and>
   total_rentable_square_footage (parse_key_data (str '', sf 5K'')) = None"
proof -
  have n: "remove_extra_spaces_in_uppercase (str '', sf 5K'') = str '', sf 5K''"
    by (simp add: normalizer_eval char_defs)
  have m: "scan sqft_at (str '', sf 5K'') = Some (str '','')"
    by (simp add: sqft_at_def char_defs)
  have k: "scan k_at (str '', sf 5K'') = Some (str ''5'')"
    by (simp add: k_at_def char_defs)
  have gm: "map_option (\<lambda>mt. group mt 1)
      (re_search sqft_pattern (remove_extra_spaces_in_uppercase (str '', sf 5K''))) =
      Some (str '','')"
    by (simp only: search_sqft n m)
  have gk: "map_option (\<lambda>mt. group mt 1)
      (re_search k_pattern (remove_extra_spaces_in_uppercase (str '', sf 5K''))) =
      Some (str ''5'')"
    by (simp only: search_k n k)
  from gm obtain mt where
    mt: "re_search sqft_pattern (remove_extra_spaces_in_uppercase (str '', sf 5K'')) = Some mt"
    and g: "group mt 1 = str '',''"
    by auto
  have "py_int (replace_char 0x2C [] (str '','')) = None"
    by (simp add: py_int_def replace_char_def)
  with sqft_pattern_takes_precedence [OF mt] g
  have "total_rentable_square_footage (parse_key_data (str '', sf 5K'')) = None"
    by (simp only:)
  with gm gk show ?thesis by (simp only: simp_thms)
qed

section \<open>Facts about the matchers\<close>








text \<open>What the program passes to \<^verbatim>\<open>int\<close> consists of decimal digits.\<close>

lemma sqft_at_digits:
  "sqft_at xs = Some g \<Longrightarrow> list_all is_decimal (replace_char 0x2C [] g)"
proof -
  assume "sqft_at xs = Some g"
  then have g: "g = takeWhile digit_or_comma xs"
    by (auto simp: sqft_at_def Let_def split: if_splits)
  have "\<forall>c\<in>set (takeWhile digit_or_comma xs). digit_or_comma c"
    by (auto dest: set_takeWhileD)
  then have "list_all is_decimal (replace_char 0x2C [] (takeWhile digit_or_comma xs))"
    by (induction "takeWhile digit_or_comma xs")
      (auto simp: replace_char_def digit_or_comma_def list_all_iff)
  with g show ?thesis by simp
qed

lemma k_at_digits: "k_at xs = Some g \<Longrightarrow> g \<noteq> [] \<and> list_all is_decimal g"
  by (auto simp: k_at_def list_all_iff split: if_splits dest: set_takeWhileD)

subsection \<open>Case mappings on matched text\<close>

lemma ci_match_cased: "ci_match p c \<Longrightarrow> is_AZ p \<Longrightarrow> is_cased c"
  by (auto simp: ci_match_def is_cased_def is_AZ_def is_az_def)

lemma ci_match_lower:
  "ci_match p c \<Longrightarrow> is_AZ p \<Longrightarrow> c \<noteq> 0x130 \<Longrightarrow> c \<noteq> 0x131 \<Longrightarrow> c \<noteq> 0x17F \<Longrightarrow>
   to_lower c = [p + 0x20]"
  by (auto simp: ci_match_def to_lower_def is_AZ_def is_az_def)

lemma ci_match_upper:
  "ci_match p c \<Longrightarrow> is_AZ p \<Longrightarrow> c \<noteq> 0x130 \<Longrightarrow> c \<noteq> 0x212A \<Longrightarrow> to_upper c = [p]"
  by (auto simp: ci_match_def to_upper_def is_AZ_def is_az_def)

lemma ci_match_special:
  "ci_match p c \<Longrightarrow> is_AZ p \<Longrightarrow>
   (c = 0x130 \<or> c = 0x131 \<longrightarrow> p = 0x49) \<and> (c = 0x17F \<longrightarrow> p = 0x53) \<and> (c = 0x212A \<longrightarrow> p = 0x4B)"
  by (auto simp: ci_match_def is_AZ_def is_az_def)


lemma title_from_lower:
  "list_all2 ci_match ps m \<Longrightarrow> list_all is_AZ ps \<Longrightarrow> 0x49 \<notin> set ps \<Longrightarrow> 0x53 \<notin> set ps \<Longrightarrow>
   title_from True m = map (\<lambda>p. p + 0x20) ps"
proof (induction ps arbitrary: m)
  case Nil
  then show ?case by simp
next
  case (Cons p ps)
  then obtain c m' where m: "m = c # m'" and c: "ci_match p c" and m': "list_all2 ci_match ps m'"
    by (auto simp: list_all2_Cons1)
  from Cons.prems have p: "is_AZ p" "p \<noteq> 0x49" "p \<noteq> 0x53" by auto
  with c have "c \<noteq> 0x130" "c \<noteq> 0x131" "c \<noteq> 0x17F"
    using ci_match_special [OF c] by auto
  with c p have "to_lower c = [p + 0x20]" by (simp add: ci_match_lower)
  moreover have "is_cased c" using c p by (simp add: ci_match_cased)
  moreover have "title_from True m' = map (\<lambda>p. p + 0x20) ps"
    using Cons m' by simp
  ultimately show ?case by (simp add: m)
qed

lemma upper_matched:
  "list_all2 ci_match ps m \<Longrightarrow> list_all is_AZ ps \<Longrightarrow> 0x4B \<notin> set ps \<Longrightarrow> 0x130 \<notin> set m \<Longrightarrow>
   upper m = ps"
proof (induction ps arbitrary: m)
  case Nil
  then show ?case by (simp add: upper_def)
next
  case (Cons p ps)
  then obtain c m' where m: "m = c # m'" and c: "ci_match p c" and m': "list_all2 ci_match ps m'"
    by (auto simp: list_all2_Cons1)
  from Cons.prems have p: "is_AZ p" "p \<noteq> 0x4B" by auto
  from Cons.prems m have "c \<noteq> 0x130" by auto
  moreover have "c \<noteq> 0x212A" using ci_match_special [OF c] p by auto
  ultimately have "to_upper c = [p]" using c p by (simp add: ci_match_upper)
  moreover have "upper m' = ps" using Cons m' m by simp
  ultimately show ?case by (simp add: m upper_def)
qed

lemma title_brooklyn:
  assumes "list_all2 ci_match (str ''BROOKLYN'') g"
  shows "title g = str ''Brooklyn''"
proof -
  from assms obtain c m where g: "g = c # m" and c: "ci_match 0x42 c"
    and m: "list_all2 ci_match (str ''ROOKLYN'') m"
    by (auto simp: list_all2_Cons1)
  from c have "to_title c = [0x42]" "is_cased c"
    by (auto simp: ci_match_def to_title_def to_upper_def is_cased_def is_AZ_def is_az_def)
  moreover have "title_from True m = map (\<lambda>p. p + 0x20) (str ''ROOKLYN'')"
    by (rule title_from_lower [OF m]) (simp_all add: is_AZ_def)
  ultimately show ?thesis by (simp add: g title_def)
qed

section \<open>The address\<close>


lemma scan_Some: "scan m s = Some g \<Longrightarrow> \<exists>i\<le>length s. m (drop i s) = Some g"
proof (induction s)
  case Nil
  then show ?case by simp
next
  case (Cons c s)
  show ?case
  proof (cases "m (c # s)")
    case None
    with Cons obtain i where "i \<le> length s" "m (drop i s) = Some g" by auto
    then have "Suc i \<le> length (c # s) \<and> m (drop (Suc i) (c # s)) = Some g" by simp
    then show ?thesis by blast
  next
    case (Some a)
    with Cons have "m (drop 0 (c # s)) = Some g" by simp
    then show ?thesis by blast
  qed
qed

lemma set_replace_char: "set (replace_char old new s) \<subseteq> set s \<union> set new"
  by (induction s) (auto simp: replace_char_def)

lemma set_normalized: "set (remove_extra_spaces_in_uppercase s) \<subseteq> insert 0x20 (set s)"
proof -
  have "set (remove_extra_spaces_in_uppercase s) \<subseteq> set (replace_char 0x0A (str '' '') s)"
    by (simp add: remove_extra_spaces_in_uppercase_def pattern_sub_collapse set_collapse)
  also have "\<dots> \<subseteq> set s \<union> set (str '' '')" by (rule set_replace_char)
  finally show ?thesis by auto
qed

lemma address_at_Some:
  assumes "address_at xs = Some (g1, g2)"
  shows "list_all2 ci_match (str ''BROOKLYN'') g1 \<and> set g2 \<subseteq> set xs \<and>
         (list_all2 ci_match (str ''NEWYOR'') g2 \<or> list_all2 ci_match (str ''NEWYORCITY'') g2)"
proof -
  from assms obtain r where b: "literal_ic (str ''BROOKLYN'') xs = Some (g1, r)"
    by (auto simp: address_at_def split: option.splits)
  define r1 where "r1 = dropWhile is_space (case r of [] \<Rightarrow> r | c # r' \<Rightarrow> if c = 0x2C then r' else r)"
  from assms b obtain n r2 where n: "literal_ic (str ''NEWYOR'') r1 = Some (n, r2)"
    by (auto simp: address_at_def r1_def split: option.splits)
  from literal_ic_Some [OF b] have xs: "xs = g1 @ r" and g1: "list_all2 ci_match (str ''BROOKLYN'') g1"
    by simp_all
  from literal_ic_Some [OF n] have r1: "r1 = n @ r2" and n2: "list_all2 ci_match (str ''NEWYOR'') n"
    by simp_all
  have "set r1 \<subseteq> set r"
    unfolding r1_def by (auto dest: set_dropWhileD split: list.splits if_splits)
  with xs have sub: "set r1 \<subseteq> set xs" by auto
  show ?thesis
  proof (cases "literal_ic (str ''CITY'') r2")
    case None
    with assms b n have "g2 = n" by (simp add: address_at_def r1_def)
    with g1 n2 sub r1 show ?thesis by auto
  next
    case (Some a)
    obtain c r3 where a: "a = (c, r3)" by (cases a)
    with assms b n Some have g2: "g2 = n @ c" by (simp add: address_at_def r1_def)
    from literal_ic_Some [of "str ''CITY''" r2 c r3] Some a
    have r2: "r2 = c @ r3" and c: "list_all2 ci_match (str ''CITY'') c" by simp_all
    from n2 c have "list_all2 ci_match (str ''NEWYOR'' @ str ''CITY'') (n @ c)"
      by (rule list_all2_appendI)
    then have "list_all2 ci_match (str ''NEWYORCITY'') g2" by (simp add: g2)
    moreover have "set g2 \<subseteq> set xs" using sub r1 r2 g2 by auto
    ultimately show ?thesis using g1 by simp
  qed
qed

text \<open>
  C9, as stated: whenever the address is found, the matched variant in upper case is
  NEWYORCITY or NEWYOR, so the last branch of the mapping is never taken.  Under
  IGNORECASE the letter I of CITY also matches U+0130 (capital I with dot above), which
  \<^verbatim>\<open>upper()\<close> leaves as it is: the variant is then neither of the two, and the last
  branch returns it in title case.
\<close>

theorem address_fallback_reached:
  "map_option (\<lambda>mt. (group mt 1, group mt 2))
     (re_search address_pattern
        (remove_extra_spaces_in_uppercase (str ''BROOKLYN NEWYORC'' @ [0x130] @ str ''TY''))) =
     Some (str ''BROOKLYN'', str ''NEWYORC'' @ [0x130] @ str ''TY'') \<and>
   upper (str ''NEWYORC'' @ [0x130] @ str ''TY'') = str ''NEWYORC'' @ [0x130] @ str ''TY'' \<and>
   address (parse_key_data (str ''BROOKLYN NEWYORC'' @ [0x130] @ str ''TY'')) =
     Some (str ''Brooklyn, Newyorci'' @ [0x307] @ str ''ty'')"
proof -
  have n: "remove_extra_spaces_in_uppercase (str ''BROOKLYN NEWYORC'' @ [0x130] @ str ''TY'') =
      str ''BROOKLYNNEWYORC'' @ [0x130] @ str ''TY''"
    by (simp add: normalizer_eval char_defs)
  have m: "scan address_at (str ''BROOKLYNNEWYORC'' @ [0x130] @ str ''TY'') =
      Some (str ''BROOKLYN'', str ''NEWYORC'' @ [0x130] @ str ''TY'')"
    by (simp add: address_at_def char_defs)
  have u: "upper (str ''NEWYORC'' @ [0x130] @ str ''TY'') = str ''NEWYORC'' @ [0x130] @ str ''TY''"
    by (simp add: upper_def char_defs)
  show ?thesis
    by (simp only: search_address parse_address n m u option.case prod.case)
      (simp add: title_def char_defs)
qed

text \<open>
  Without U+0130 in the text, what matches the city is made of ASCII letters, and its
  upper case is the word of the pattern.
\<close>

lemma address_variants_scan:
  assumes "0x130 \<notin> set s"
  shows "(\<forall>g1 g2. scan address_at (remove_extra_spaces_in_uppercase s) = Some (g1, g2) \<longrightarrow>
            upper g2 = str ''NEWYORCITY'' \<or> upper g2 = str ''NEWYOR'') \<and>
         (address (parse_key_data s) = None \<or>
          address (parse_key_data s) = Some (str ''Brooklyn, New York City'') \<or>
          address (parse_key_data s) = Some (str ''Brooklyn, New York''))"
proof (cases "scan address_at (remove_extra_spaces_in_uppercase s)")
  case None
  then show ?thesis by (simp add: parse_address)
next
  case (Some a)
  obtain g1 g2 where a: "a = (g1, g2)" by (cases a)
  from scan_Some [of address_at _ "(g1, g2)"] Some a
  obtain i where i: "address_at (drop i (remove_extra_spaces_in_uppercase s)) = Some (g1, g2)"
    by auto
  note m = address_at_Some [OF i]
  have "set g2 \<subseteq> set (remove_extra_spaces_in_uppercase s)"
    using m set_drop_subset [of i "remove_extra_spaces_in_uppercase s"] by blast
  with set_normalized [of s] assms have no: "0x130 \<notin> set g2" by auto
  have up: "upper g2 = str ''NEWYORCITY'' \<or> upper g2 = str ''NEWYOR''"
  proof -
    from m consider "list_all2 ci_match (str ''NEWYOR'') g2" | "list_all2 ci_match (str ''NEWYORCITY'') g2"
      by blast
    then show ?thesis
    proof cases
      case 1
      have "upper g2 = str ''NEWYOR''"
        by (rule upper_matched [OF 1 _ _ no]) (simp_all add: is_AZ_def)
      then show ?thesis by simp
    next
      case 2
      have "upper g2 = str ''NEWYORCITY''"
        by (rule upper_matched [OF 2 _ _ no]) (simp_all add: is_AZ_def)
      then show ?thesis by simp
    qed
  qed
  have t: "title g1 = str ''Brooklyn''" using m by (simp add: title_brooklyn)
  from up t Some a show ?thesis
    by (auto simp: parse_address)
qed

text \<open>
  C9, amended: for every input string that does not contain U+0130, whenever the
  address pattern matches, the matched variant in upper case is NEWYORCITY or NEWYOR;
  the address is null, "Brooklyn, New York City" or "Brooklyn, New York".
\<close>

theorem address_variants_without_dotted_I:
  assumes "0x130 \<notin> set s"
  shows "(\<forall>address_match.
            re_search address_pattern (remove_extra_spaces_in_uppercase s) = Some address_match \<longrightarrow>
            upper (group address_match 2) = str ''NEWYORCITY'' \<or>
            upper (group address_match 2) = str ''NEWYOR'') \<and>
         (address (parse_key_data s) = None \<or>
          address (parse_key_data s) = Some (str ''Brooklyn, New York City'') \<or>
          address (parse_key_data s) = Some (str ''Brooklyn, New York''))"
proof (intro conjI allI impI)
  fix mt
  assume "re_search address_pattern (remove_extra_spaces_in_uppercase s) = Some mt"
  then have "scan address_at (remove_extra_spaces_in_uppercase s) = Some (group mt 1, group mt 2)"
    by (rule search_address_Some)
  with address_variants_scan [OF assms]
  show "upper (group mt 2) = str ''NEWYORCITY'' \<or> upper (group mt 2) = str ''NEWYOR''"
    by blast
next
  from address_variants_scan [OF assms]
  show "address (parse_key_data s) = None \<or>
        address (parse_key_data s) = Some (str ''Brooklyn, New York City'') \<or>
        address (parse_key_data s) = Some (str ''Brooklyn, New York'')"
    by (rule conjunct2)
qed

theorem address_variants_without_dotted_I_witness:
  "address (parse_key_data (str ''BROOKLYN, NEWYORCITY'')) = Some (str ''Brooklyn, New York City'')"
proof -
  have n: "remove_extra_spaces_in_uppercase (str ''BROOKLYN, NEWYORCITY'') = str ''BROOKLYN, NEWYORCITY''"
    by (simp add: normalizer_eval char_defs)
  have m: "scan address_at (str ''BROOKLYN, NEWYORCITY'') =
      Some (str ''BROOKLYN'', str ''NEWYORCITY'')"
    by (simp add: address_at_def char_defs)
  have a: "address (parse_key_data (str ''BROOKLYN, NEWYORCITY'')) \<noteq> None"
    by (simp only: parse_address n m option.case prod.case) simp
  have c: "address (parse_key_data (str ''BROOKLYN, NEWYORCITY'')) \<noteq> Some (str ''Brooklyn, New York'')"
    by (simp only: parse_address n m option.case prod.case) (simp add: upper_def title_def char_defs)
  have h: "0x130 \<notin> set (str ''BROOKLYN, NEWYORCITY'')" by simp
  from address_variants_without_dotted_I [OF h]
  have "address (parse_key_data (str ''BROOKLYN, NEWYORCITY'')) = None \<or>
        address (parse_key_data (str ''BROOKLYN, NEWYORCITY'')) = Some (str ''Brooklyn, New York City'') \<or>
        address (parse_key_data (str ''BROOKLYN, NEWYORCITY'')) = Some (str ''Brooklyn, New York'')"
    by (rule conjunct2)
  then show ?thesis
  proof (elim disjE)
    assume "address (parse_key_data (str ''BROOKLYN, NEWYORCITY'')) = None"
    with a show ?thesis by simp
  next
    assume "address (parse_key_data (str ''BROOKLYN, NEWYORCITY'')) = Some (str ''Brooklyn, New York City'')"
    then show ?thesis .
  next
    assume "address (parse_key_data (str ''BROOKLYN, NEWYORCITY'')) = Some (str ''Brooklyn, New York'')"
    with c show ?thesis by simp
  qed
qed

section \<open>The normalizer on a text made of parts\<close>




















lemma address_spaced_out_example:
  "remove_extra_spaces_in_uppercase (str ''B R O O K LY N, N E W Y O R C I T Y'') =
     str ''BROOKLYN, NEWYORCITY'' \<and>
   address (parse_key_data (str ''B R O O K LY N, N E W Y O R C I T Y'')) =
     Some (str ''Brooklyn, New York City'')"
proof -
  have n: "remove_extra_spaces_in_uppercase (str ''B R O O K LY N, N E W Y O R C I T Y'') =
      str ''BROOKLYN, NEWYORCITY''"
    by (simp add: normalizer_eval char_defs)
  have m: "scan address_at (str ''BROOKLYN, NEWYORCITY'') =
      Some (str ''BROOKLYN'', str ''NEWYORCITY'')"
    by (simp add: address_at_def char_defs)
  show ?thesis
    by (simp only: parse_address n m option.case prod.case)
      (simp add: upper_def title_def char_defs)
qed

section \<open>The property name\<close>























section \<open>Further properties\<close>

text \<open>
  The example of the normalizer's docstring: "B R O O K LY N" becomes "BROOKLYN".
\<close>

lemma normalizer_docstring_example:
  "remove_extra_spaces_in_uppercase (str ''B R O O K LY N'') = str ''BROOKLYN''"
  by (simp add: normalizer_eval char_defs)

text \<open>
  A text without a run of spaced upper-case letters (the pattern matches at no position
  of the text with its newlines replaced) is returned with only the newlines replaced.
\<close>

lemma pattern_sub_no_match:
  "(\<forall>p r. t = p @ r \<longrightarrow> match_at pattern r = None) \<Longrightarrow> pattern_sub t = t"
  unfolding match_at_pattern_None
proof (induction t)
  case Nil
  show ?case by simp
next
  case (Cons c t)
  have "c # t = [] @ (c # t)" by simp
  with Cons.prems have here: "pattern_at (c # t) = None" by blast
  have "\<forall>p r. t = p @ r \<longrightarrow> pattern_at r = None"
  proof (intro allI impI)
    fix p r
    assume "t = p @ r"
    then have "c # t = (c # p) @ r" by simp
    with Cons.prems show "pattern_at r = None" by blast
  qed
  with Cons.IH have "pattern_sub t = t" by simp
  with here show ?case by simp
qed

lemma normalizer_without_runs:
  "(\<forall>p r. replace_char 0x0A (str '' '') s = p @ r \<longrightarrow> match_at pattern r = None) \<Longrightarrow>
   remove_extra_spaces_in_uppercase s = replace_char 0x0A (str '' '') s"
  unfolding remove_extra_spaces_in_uppercase_def by (rule pattern_sub_no_match)

lemma pattern_at_needs_upper:
  "pattern_at r \<noteq> None \<Longrightarrow> r \<noteq> [] \<and> is_AZ (hd r)"
  by (auto simp: pattern_at_def split: list.splits if_splits)

lemma normalizer_without_runs_witness:
  "remove_extra_spaces_in_uppercase (str ''rent per'' @ [0x0A] @ str ''year'') =
   str ''rent per year''"
proof -
  have "\<forall>p r. str ''rent per year'' = p @ r \<longrightarrow> pattern_at r = None"
  proof (intro allI impI)
    fix p r :: pystr
    assume e: "str ''rent per year'' = p @ r"
    show "pattern_at r = None"
    proof (rule ccontr)
      assume "pattern_at r \<noteq> None"
      then have r: "r \<noteq> []" "is_AZ (hd r)" using pattern_at_needs_upper by blast+
      then have "hd r \<in> set (p @ r)" by simp
      with e have "hd r \<in> set (str ''rent per year'')" by simp
      with r(2) show False by (auto simp: is_AZ_def)
    qed
  qed
  then have "\<forall>p r. replace_char 0x0A (str '' '') (str ''rent per'' @ [0x0A] @ str ''year'') = p @ r \<longrightarrow>
      match_at pattern r = None"
    by (simp add: replace_char_def match_at_pattern_None)
  from normalizer_without_runs [OF this] show ?thesis
    by (simp add: replace_char_def)
qed

text \<open>
  The handler's error responses: 400 when the request has no file part or the file
  has no name, 500 with the text extractor's message when the PDF library fails.
\<close>

lemma handler_errors:
  "parse_pdf_api reader None = (Error (str ''No file part in the request.''), 400) \<and>
   parse_pdf_api reader (Some \<lparr>filename = [], content = f\<rparr>) =
     (Error (str ''No selected file.''), 400) \<and>
   (name \<noteq> [] \<and> reader f = Inl e \<longrightarrow>
      parse_pdf_api reader (Some \<lparr>filename = name, content = f\<rparr>) =
        (Error (str ''Error processing PDF file: '' @ e), 500))"
  by (simp add: parse_pdf_api_def extract_text_from_pdf_def)

lemma handler_errors_witness:
  "parse_pdf_api (\<lambda>f. Inl (str ''EOF marker not found'')) (Some \<lparr>filename = str ''notes.txt'', content = ()\<rparr>) =
   (Error (str ''Error processing PDF file: EOF marker not found''), 500)"
  using handler_errors [of "\<lambda>f. Inl (str ''EOF marker not found'')" "()" "str ''notes.txt''"
      "str ''EOF marker not found''"]
  by simp

text \<open>
  A document without a square footage figure: the handler answers 422, with the two
  fields that were found and a null square footage.
\<close>

lemma handler_partial_example:
  "parse_pdf_api (\<lambda>f. Inr [Some (str ''280 RICHARDS''), Some (str ''B R O O K LY N, N E W Y O R C I T Y'')])
     (Some \<lparr>filename = str ''lease.pdf'', content = ()\<rparr>) =
   (Partial (str ''Could not reliably extract all key information.'')
      \<lparr>property_name = Some (str ''280 Richards''),
       address = Some (str ''Brooklyn, New York City''),
       total_rentable_square_footage = None\<rparr>, 422)"
proof -
  have t: "extract_text_from_pdf
      (\<lambda>f. Inr [Some (str ''280 RICHARDS''), Some (str ''B R O O K LY N, N E W Y O R C I T Y'')]) () =
      Inr (str ''280 RICHARDS'' @ [0x0A] @ str ''B R O O K LY N, N E W Y O R C I T Y'' @ [0x0A])"
    by (simp add: extract_text_from_pdf_def)
  have n: "remove_extra_spaces_in_uppercase
      (str ''280 RICHARDS'' @ [0x0A] @ str ''B R O O K LY N, N E W Y O R C I T Y'' @ [0x0A]) =
      str ''280 RICHARDSBROOKLYN, NEWYORCITY ''"
    by (simp add: normalizer_eval char_defs)
  have k: "parse_key_data
      (str ''280 RICHARDS'' @ [0x0A] @ str ''B R O O K LY N, N E W Y O R C I T Y'' @ [0x0A]) =
      \<lparr>property_name = Some (str ''280 Richards''),
       address = Some (str ''Brooklyn, New York City''),
       total_rentable_square_footage = None\<rparr>"
    unfolding parse_key_data_matchers n
    by (simp add: matcher_defs char_defs string_defs replace_char_def)
  show ?thesis
    unfolding parse_pdf_api_def
    by (simp only: option.case upload.simps t sum.case k Let_def) (simp add: has_None_def)
qed

text \<open>
  The square footage, when present, is a non-negative integer.
\<close>

lemma foldl_digits_nonneg:
  "0 \<le> a \<Longrightarrow> 0 \<le> foldl (\<lambda>n c. 10 * n + int (decimal_value c)) a s"
  by (induction s arbitrary: a) auto

lemma py_int_nonneg: "py_int s = Some n \<Longrightarrow> 0 \<le> n"
  by (auto simp: py_int_def foldl_digits_nonneg split: if_splits)

lemma square_footage_non_negative:
  "total_rentable_square_footage (parse_key_data s) = Some n \<Longrightarrow> 0 \<le> n"
  by (auto simp: parse_sqft split: option.splits dest: py_int_nonneg)

lemma square_footage_non_negative_witness:
  "total_rentable_square_footage (parse_key_data (str ''312K'')) = Some 312000 \<and> (0::int) \<le> 312000"
proof -
  have n: "remove_extra_spaces_in_uppercase (str ''312K'') = str ''312K''"
    by (simp add: normalizer_eval char_defs)
  have m: "scan sqft_at (str ''312K'') = None"
    by (simp add: sqft_at_def char_defs)
  have k: "scan k_at (str ''312K'') = Some (str ''312'')"
    by (simp add: k_at_def char_defs)
  have v: "total_rentable_square_footage (parse_key_data (str ''312K'')) = Some 312000"
    by (simp only: parse_sqft n m k option.case) (simp add: string_defs char_defs)
  with square_footage_non_negative [OF v] show ?thesis by simp
qed

end

